theory Spec2Isabelle
  imports Complex_Main
begin

section \<open>Numbers of the sample and accumulator types\<close>

text \<open>
  The template parameters \<open>T\<close> (samples) and \<open>D\<close> (accumulators) of
  \<open>Statistics.h\<close> are floating-point types. A value of such a type is Not-a-Number,
  one of the two infinities, or a finite number. Finite numbers are reals here, and the
  arithmetic on them is exact; the special values follow the IEEE 754 rules the C++
  operators have (an invalid operation gives Not-a-Number, a nonzero number divided by
  zero gives an infinity, every comparison with Not-a-Number is false). There is a single
  zero, which divides like \<open>+0\<close>. Rounding enters only where a function is given a
  rounding operator explicitly (the square root at the end of the file, and one remark
  on the divisor of the sample variance).
\<close>

datatype fp = NaN | NInf | Fin real | PInf

fun fp_neg :: "fp \<Rightarrow> fp" where
  "fp_neg NaN = NaN"
| "fp_neg NInf = PInf"
| "fp_neg PInf = NInf"
| "fp_neg (Fin a) = Fin (- a)"

fun fp_add :: "fp \<Rightarrow> fp \<Rightarrow> fp" where
  "fp_add NaN y = NaN"
| "fp_add x NaN = NaN"
| "fp_add PInf NInf = NaN"
| "fp_add NInf PInf = NaN"
| "fp_add PInf y = PInf"
| "fp_add x PInf = PInf"
| "fp_add NInf y = NInf"
| "fp_add x NInf = NInf"
| "fp_add (Fin a) (Fin b) = Fin (a + b)"

text \<open>The sign an infinite product or quotient takes: \<open>True\<close> is negative. A zero
  counts as positive, which only matters for a division by zero.\<close>

fun fp_negative :: "fp \<Rightarrow> bool" where
  "fp_negative NInf = True"
| "fp_negative (Fin a) = (a < 0)"
| "fp_negative x = False"

definition fp_inf :: "bool \<Rightarrow> fp" where
  "fp_inf negative = (if negative then NInf else PInf)"

fun fp_is_inf :: "fp \<Rightarrow> bool" where
  "fp_is_inf NInf = True"
| "fp_is_inf PInf = True"
| "fp_is_inf x = False"

fun fp_mul :: "fp \<Rightarrow> fp \<Rightarrow> fp" where
  "fp_mul NaN y = NaN"
| "fp_mul x NaN = NaN"
| "fp_mul (Fin a) (Fin b) = Fin (a * b)"
| "fp_mul x y =
     (if x = Fin 0 \<or> y = Fin 0 then NaN else fp_inf (fp_negative x \<noteq> fp_negative y))"

fun fp_div :: "fp \<Rightarrow> fp \<Rightarrow> fp" where
  "fp_div NaN y = NaN"
| "fp_div x NaN = NaN"
| "fp_div (Fin a) (Fin b) =
     (if b = 0 then (if a = 0 then NaN else fp_inf (a < 0)) else Fin (a / b))"
| "fp_div (Fin a) y = Fin 0"
| "fp_div x y = (if fp_is_inf y then NaN else fp_inf (fp_negative x \<noteq> fp_negative y))"

fun fp_less :: "fp \<Rightarrow> fp \<Rightarrow> bool" where
  "fp_less NaN y = False"
| "fp_less x NaN = False"
| "fp_less x NInf = False"
| "fp_less PInf y = False"
| "fp_less NInf y = True"
| "fp_less x PInf = True"
| "fp_less (Fin a) (Fin b) = (a < b)"

text \<open>The operator \<open>==\<close> of the floating-point types: Not-a-Number equals nothing.\<close>

definition fp_eq :: "fp \<Rightarrow> fp \<Rightarrow> bool" where
  "fp_eq x y = (x \<noteq> NaN \<and> x = y)"

instantiation fp :: "{zero, one, plus, minus, uminus, times, inverse, ord}"
begin

definition zero_fp :: fp where "zero_fp = Fin 0"
definition one_fp :: fp where "one_fp = Fin 1"
definition plus_fp :: "fp \<Rightarrow> fp \<Rightarrow> fp" where "plus_fp x y = fp_add x y"
definition uminus_fp :: "fp \<Rightarrow> fp" where "uminus_fp x = fp_neg x"
definition minus_fp :: "fp \<Rightarrow> fp \<Rightarrow> fp" where "minus_fp x y = fp_add x (fp_neg y)"
definition times_fp :: "fp \<Rightarrow> fp \<Rightarrow> fp" where "times_fp x y = fp_mul x y"
definition divide_fp :: "fp \<Rightarrow> fp \<Rightarrow> fp" where "divide_fp x y = fp_div x y"
definition inverse_fp :: "fp \<Rightarrow> fp" where "inverse_fp x = fp_div (Fin 1) x"
definition less_fp :: "fp \<Rightarrow> fp \<Rightarrow> bool" where "less_fp x y = fp_less x y"
definition less_eq_fp :: "fp \<Rightarrow> fp \<Rightarrow> bool" where "less_eq_fp x y = (fp_less x y \<or> fp_eq x y)"

instance ..

end

text \<open>\<open>std::max(a, b)\<close> is \<open>(a < b) ? b : a\<close> and \<open>std::min(a, b)\<close> is
  \<open>(b < a) ? b : a\<close>: when the comparison is false, as it is with Not-a-Number, the
  first argument is returned.\<close>

definition std_max :: "fp \<Rightarrow> fp \<Rightarrow> fp" where
  "std_max a b = (if a < b then b else a)"

definition std_min :: "fp \<Rightarrow> fp \<Rightarrow> fp" where
  "std_min a b = (if b < a then b else a)"

section \<open>Compensated summation\<close>

record KahanSum =
  mSum :: fp
  mCorrection :: fp

definition KahanSum_init :: KahanSum where
  "KahanSum_init = \<lparr>mSum = 0, mCorrection = 0\<rparr>"

text \<open>\<open>operator+=\<close>\<close>

definition KahanSum_add :: "KahanSum \<Rightarrow> fp \<Rightarrow> KahanSum" where
  "KahanSum_add k rhs =
     (let y = rhs - mCorrection k;
          t = mSum k + y
      in \<lparr>mSum = t, mCorrection = (t - mSum k) - y\<rparr>)"

text \<open>\<open>operator T()\<close>\<close>

definition KahanSum_value :: "KahanSum \<Rightarrow> fp" where
  "KahanSum_value k = mSum k"

definition KahanSum_reset :: "KahanSum \<Rightarrow> KahanSum" where
  "KahanSum_reset k = k\<lparr>mSum := 0, mCorrection := 0\<rparr>"

section \<open>The online engine\<close>

definition mNegativeInfinity :: fp where
  "mNegativeInfinity = NInf"

definition mPositiveInfinity :: fp where
  "mPositiveInfinity = PInf"

text \<open>\<open>Statistics<T, D, S>\<close> with the default summation \<open>S = KahanSum<D>\<close>.
  The count \<open>mN\<close> is an \<open>int64_t\<close> that only ever grows by one; it is an
  unbounded integer here.\<close>

record Statistics =
  mAlpha :: fp
  mMin :: fp
  mMax :: fp
  mN :: int
  mWeight :: fp
  mWeight2 :: fp
  mMean :: KahanSum
  mM2 :: fp

definition Statistics_new :: "fp \<Rightarrow> Statistics" where
  "Statistics_new alpha =
     \<lparr>mAlpha = alpha, mMin = mPositiveInfinity, mMax = mNegativeInfinity,
      mN = 0, mWeight = 0, mWeight2 = 0, mMean = KahanSum_init, mM2 = 0\<rparr>"

definition setAlpha :: "Statistics \<Rightarrow> fp \<Rightarrow> Statistics" where
  "setAlpha s alpha = s\<lparr>mAlpha := alpha\<rparr>"

definition add :: "Statistics \<Rightarrow> fp \<Rightarrow> Statistics" where
  "add s val =
     (let mMax' = std_max (mMax s) val;
          mMin' = std_min (mMin s) val;
          mN' = mN s + 1;
          delta = val - KahanSum_value (mMean s);
          mWeight' = 1 + mAlpha s * mWeight s;
          mWeight2' = 1 + mAlpha s * mAlpha s * mWeight2 s;
          mMean' = KahanSum_add (mMean s) (delta / mWeight');
          mM2' = mAlpha s * mM2 s + delta * (val - KahanSum_value mMean')
      in s\<lparr>mMin := mMin', mMax := mMax', mN := mN', mWeight := mWeight',
            mWeight2 := mWeight2', mMean := mMean', mM2 := mM2'\<rparr>)"

definition getN :: "Statistics \<Rightarrow> int" where
  "getN s = mN s"

definition reset :: "Statistics \<Rightarrow> Statistics" where
  "reset s =
     s\<lparr>mMin := mPositiveInfinity, mMax := mNegativeInfinity, mN := 0,
       mWeight := 0, mWeight2 := 0, mMean := KahanSum_reset (mMean s), mM2 := 0\<rparr>"

definition getWeight :: "Statistics \<Rightarrow> fp" where
  "getWeight s = mWeight s"

definition getMean :: "Statistics \<Rightarrow> fp" where
  "getMean s = KahanSum_value (mMean s)"

definition getSampleWeight :: "Statistics \<Rightarrow> fp" where
  "getSampleWeight s = mWeight s - mWeight2 s / mWeight s"

definition getVariance :: "Statistics \<Rightarrow> fp" where
  "getVariance s = (if mN s < 2 then 0 else mM2 s / getSampleWeight s)"

definition getPopVariance :: "Statistics \<Rightarrow> fp" where
  "getPopVariance s = (if mN s < 1 then 0 else mM2 s / mWeight s)"

definition getMin :: "Statistics \<Rightarrow> fp" where
  "getMin s = mMin s"

definition getMax :: "Statistics \<Rightarrow> fp" where
  "getMax s = mMax s"

text \<open>A use of the engine is a sequence of calls of its three mutators.\<close>

datatype call = Add fp | SetAlpha fp | Reset

fun apply_call :: "Statistics \<Rightarrow> call \<Rightarrow> Statistics" where
  "apply_call s (Add val) = add s val"
| "apply_call s (SetAlpha alpha) = setAlpha s alpha"
| "apply_call s Reset = reset s"

definition run :: "Statistics \<Rightarrow> call list \<Rightarrow> Statistics" where
  "run s cs = foldl apply_call s cs"

section \<open>The reference engine\<close>

text \<open>\<open>ReferenceStatistics<T, D>\<close> keeps every sample and the alpha in effect when it
  was added, most recent first (\<open>push_front\<close>). Its fields \<open>mMin\<close>, \<open>mMax\<close> and
  \<open>mAlpha\<close> carry the prefix \<open>ref_\<close> here, the names being taken by the online
  engine.\<close>

record ReferenceStatistics =
  ref_mMin :: fp
  ref_mMax :: fp
  ref_mAlpha :: fp
  mData :: "fp list"
  mAlphaList :: "fp list"

definition ReferenceStatistics_new :: "fp \<Rightarrow> ReferenceStatistics" where
  "ReferenceStatistics_new alpha =
     \<lparr>ref_mMin = 0, ref_mMax = 0, ref_mAlpha = alpha, mData = [], mAlphaList = []\<rparr>"

definition ref_setAlpha :: "ReferenceStatistics \<Rightarrow> fp \<Rightarrow> ReferenceStatistics" where
  "ref_setAlpha r alpha = r\<lparr>ref_mAlpha := alpha\<rparr>"

definition ref_getN :: "ReferenceStatistics \<Rightarrow> int" where
  "ref_getN r = int (length (mData r))"

definition ref_add :: "ReferenceStatistics \<Rightarrow> fp \<Rightarrow> ReferenceStatistics" where
  "ref_add r val =
     (let r' = (if ref_getN r = 0 then r\<lparr>ref_mMax := val, ref_mMin := val\<rparr>
                else if val > ref_mMax r then r\<lparr>ref_mMax := val\<rparr>
                else if val < ref_mMin r then r\<lparr>ref_mMin := val\<rparr>
                else r)
      in r'\<lparr>mData := val # mData r, mAlphaList := ref_mAlpha r # mAlphaList r\<rparr>)"

definition ref_reset :: "ReferenceStatistics \<Rightarrow> ReferenceStatistics" where
  "ref_reset r = r\<lparr>ref_mMin := 0, ref_mMax := 0, mData := [], mAlphaList := []\<rparr>"

text \<open>The four loops run \<open>i\<close> over the indices of \<open>mData\<close> and read
  \<open>mAlphaList[i]\<close>; each is a recursion over what is left of the two sequences, with
  the loop's variables as arguments. The two sequences have the same length in every
  state that \<open>ref_add\<close> and \<open>ref_reset\<close> build; the loop functions stop where
  either of them ends.\<close>

fun getWeight_loop :: "fp list \<Rightarrow> fp list \<Rightarrow> fp \<Rightarrow> fp \<Rightarrow> fp" where
  "getWeight_loop (d # ds) (a # as) weight alpha_i =
     getWeight_loop ds as (weight + alpha_i) (alpha_i * a)"
| "getWeight_loop ds as weight alpha_i = weight"

definition ref_getWeight :: "ReferenceStatistics \<Rightarrow> fp" where
  "ref_getWeight r = getWeight_loop (mData r) (mAlphaList r) 0 1"

fun getWeight2_loop :: "fp list \<Rightarrow> fp list \<Rightarrow> fp \<Rightarrow> fp \<Rightarrow> fp" where
  "getWeight2_loop (d # ds) (a # as) weight2 alpha2_i =
     getWeight2_loop ds as (weight2 + alpha2_i) (alpha2_i * (a * a))"
| "getWeight2_loop ds as weight2 alpha2_i = weight2"

definition ref_getWeight2 :: "ReferenceStatistics \<Rightarrow> fp" where
  "ref_getWeight2 r = getWeight2_loop (mData r) (mAlphaList r) 0 1"

fun getMean_loop :: "fp list \<Rightarrow> fp list \<Rightarrow> fp \<Rightarrow> fp \<Rightarrow> fp" where
  "getMean_loop (d # ds) (a # as) wsum alpha_i =
     getMean_loop ds as (wsum + alpha_i * d) (alpha_i * a)"
| "getMean_loop ds as wsum alpha_i = wsum"

definition ref_getMean :: "ReferenceStatistics \<Rightarrow> fp" where
  "ref_getMean r = getMean_loop (mData r) (mAlphaList r) 0 1 / ref_getWeight r"

fun getUnweightedVariance_loop :: "fp \<Rightarrow> fp list \<Rightarrow> fp list \<Rightarrow> fp \<Rightarrow> fp \<Rightarrow> fp" where
  "getUnweightedVariance_loop mean (d # ds) (a # as) wsum alpha_i =
     (let diff = d - mean
      in getUnweightedVariance_loop mean ds as (wsum + alpha_i * diff * diff) (alpha_i * a))"
| "getUnweightedVariance_loop mean ds as wsum alpha_i = wsum"

definition ref_getUnweightedVariance :: "ReferenceStatistics \<Rightarrow> fp" where
  "ref_getUnweightedVariance r =
     getUnweightedVariance_loop (ref_getMean r) (mData r) (mAlphaList r) 0 1"

definition ref_getVariance :: "ReferenceStatistics \<Rightarrow> fp" where
  "ref_getVariance r =
     ref_getUnweightedVariance r / (ref_getWeight r - ref_getWeight2 r / ref_getWeight r)"

definition ref_getPopVariance :: "ReferenceStatistics \<Rightarrow> fp" where
  "ref_getPopVariance r = ref_getUnweightedVariance r / ref_getWeight r"

definition ref_getMin :: "ReferenceStatistics \<Rightarrow> fp" where
  "ref_getMin r = ref_mMin r"

definition ref_getMax :: "ReferenceStatistics \<Rightarrow> fp" where
  "ref_getMax r = ref_mMax r"

section \<open>Rounding to a binary floating-point format\<close>

text \<open>
  The square root below stops when two successive iterates are equal, which they only
  become through the rounding of the target type. A format has a precision \<open>p\<close> (the
  number of significand bits) and an exponent range; its finite numbers are the
  multiples \<open>m * 2^(e - p + 1)\<close> with \<open>|m| < 2^p\<close> and \<open>emin \<le> e \<le> emax\<close>.
  \<open>round_fin\<close> is the IEEE 754 rounding to nearest, ties to even, of an exact real
  result: the exponent \<open>e\<close> of the binade of \<open>|x|\<close>, not below \<open>emin\<close> (so that
  small numbers round to subnormal ones), then the nearest multiple of \<open>2^(e - p + 1)\<close>,
  and an infinity when that reaches \<open>2^(emax + 1)\<close>.
\<close>

record format =
  precision :: nat
  emin :: int
  emax :: int

definition binary64 :: format where
  "binary64 = \<lparr>precision = 53, emin = - 1022, emax = 1023\<rparr>"

definition binary32 :: format where
  "binary32 = \<lparr>precision = 24, emin = - 126, emax = 127\<rparr>"

function binade_up :: "int \<Rightarrow> real \<Rightarrow> int \<Rightarrow> int" where
  "binade_up hi a e = (if 2 \<le> a \<and> e \<le> hi then binade_up hi (a / 2) (e + 1) else e)"
  by pat_completeness auto
termination
  by (relation "measure (\<lambda>(hi, a, e). nat (hi + 1 - e))") auto

function binade_down :: "int \<Rightarrow> real \<Rightarrow> int \<Rightarrow> int" where
  "binade_down lo a e = (if a < 1 \<and> lo < e then binade_down lo (a * 2) (e - 1) else e)"
  by pat_completeness auto
termination
  by (relation "measure (\<lambda>(lo, a, e). nat (e - lo))") auto

declare binade_up.simps [simp del] binade_down.simps [simp del]

definition binade :: "format \<Rightarrow> real \<Rightarrow> int" where
  "binade f a = (if 1 \<le> a then binade_up (emax f) a 0 else binade_down (emin f) a 0)"

definition round_half_even :: "real \<Rightarrow> int" where
  "round_half_even y =
     (let n = \<lfloor>y\<rfloor>; d = y - of_int n
      in if d < 1 / 2 then n else if 1 / 2 < d then n + 1 else if even n then n else n + 1)"

definition round_fin :: "format \<Rightarrow> real \<Rightarrow> fp" where
  "round_fin f x =
     (if x = 0 then Fin 0
      else let q = 2 powi (binade f \<bar>x\<bar> - int (precision f) + 1);
               r = of_int (round_half_even (\<bar>x\<bar> / q)) * q
           in if 2 powi (emax f + 1) \<le> r then fp_inf (x < 0)
              else Fin (if x < 0 then - r else r))"

text \<open>Rounding the result of an operation: the special values are results already.\<close>

fun round_fp :: "format \<Rightarrow> fp \<Rightarrow> fp" where
  "round_fp f (Fin x) = round_fin f x"
| "round_fp f x = x"

section \<open>The square root\<close>

text \<open>
  \<open>audio_utils_sqrt_unchecked\<close> recurses until \<open>next == prev\<close>; nothing in it bounds
  the number of steps, so the model is a partial function and \<open>None\<close> stands for a
  recursion that never returns. The argument \<open>rd\<close> is the rounding of the type \<open>T\<close>,
  applied to the exact result of each of the three operations. The comparison is the
  floating-point \<open>==\<close>. \<open>audio_utils_isnan\<close> returns its answer converted to \<open>T\<close>
  and is used as a condition; it is a truth value here.
\<close>

partial_function (option) audio_utils_sqrt_unchecked :: "(fp \<Rightarrow> fp) \<Rightarrow> fp \<Rightarrow> fp \<Rightarrow> fp option"
where
  "audio_utils_sqrt_unchecked rd x prev =
     (let next = rd (Fin (1 / 2) * rd (prev + rd (x / prev)))
      in if fp_eq next prev then Some next else audio_utils_sqrt_unchecked rd x next)"

definition audio_utils_isnan :: "fp \<Rightarrow> bool" where
  "audio_utils_isnan x = (x = NaN)"

definition audio_utils_sqrt :: "(fp \<Rightarrow> fp) \<Rightarrow> fp \<Rightarrow> fp option" where
  "audio_utils_sqrt rd x =
     (if x < 0 then Some NaN
      else if audio_utils_isnan x \<or> fp_eq x PInf \<or> fp_eq x 0 then Some x
      else audio_utils_sqrt_unchecked rd x 1)"

section \<open>The numbers of a format and one step of the iteration\<close>

text \<open>
  The formats for which the iteration is shown to stop: at least two significand bits
  and an exponent range wide enough for the square of the smallest number and for
  \<open>1 + x\<close> at the top of the range (single and double precision are such formats).
  \<open>quantum f e\<close> is the spacing of the numbers of the format in the binade of
  \<open>2^e\<close>, and \<open>is_float f v\<close> says that \<open>v\<close> is a finite number of the format.
\<close>

definition format_ok :: "format \<Rightarrow> bool" where
  "format_ok f = (2 \<le> precision f \<and> emin f \<le> - int (precision f) - 1
                  \<and> 2 * int (precision f) + 1 \<le> emax f)"

definition quantum :: "format \<Rightarrow> int \<Rightarrow> real" where
  "quantum f e = 2 powi (e - int (precision f) + 1)"

definition is_float :: "format \<Rightarrow> real \<Rightarrow> bool" where
  "is_float f v = (\<exists>k e. emin f \<le> e \<and> e \<le> emax f \<and> \<bar>k\<bar> < 2 ^ precision f
                      \<and> v = of_int k * quantum f e)"

text \<open>The value \<open>next\<close> that \<open>audio_utils_sqrt_unchecked\<close> computes from a finite
  \<open>x\<close> and a finite \<open>prev\<close>, under the rounding of the format.\<close>

definition newton :: "format \<Rightarrow> real \<Rightarrow> real \<Rightarrow> fp" where
  "newton f x p = round_fp f (Fin (1 / 2) * round_fp f (Fin p + round_fp f (Fin x / Fin p)))"

section \<open>Notions the statements use\<close>

text \<open>The finite samples of a sequence, in order, and the samples that are finite or
  Not-a-Number.\<close>

fun finite_values :: "fp list \<Rightarrow> real list" where
  "finite_values [] = []"
| "finite_values (Fin a # xs) = a # finite_values xs"
| "finite_values (x # xs) = finite_values xs"

definition nan_or_finite :: "fp \<Rightarrow> bool" where
  "nan_or_finite x = (case x of NaN \<Rightarrow> True | Fin a \<Rightarrow> True | _ \<Rightarrow> False)"

text \<open>Conditions on a sequence of calls made on an engine whose alpha is \<open>alpha\<close>:
  \<open>adds_with P alpha cs\<close> says that the alpha in effect at every \<open>add\<close> of
  \<open>cs\<close> satisfies \<open>P\<close> (a \<open>setAlpha\<close> counts from the next \<open>add\<close> on), and
  \<open>finite_sample\<close> that a call does not add an infinity or a Not-a-Number.\<close>

fun adds_with :: "(fp \<Rightarrow> bool) \<Rightarrow> fp \<Rightarrow> call list \<Rightarrow> bool" where
  "adds_with P alpha [] = True"
| "adds_with P alpha (Add val # cs) = (P alpha \<and> adds_with P alpha cs)"
| "adds_with P alpha (SetAlpha alpha' # cs) = adds_with P alpha' cs"
| "adds_with P alpha (Reset # cs) = adds_with P alpha cs"

fun fin_nonneg :: "fp \<Rightarrow> bool" where
  "fin_nonneg (Fin a) = (0 \<le> a)"
| "fin_nonneg x = False"

fun fin_positive :: "fp \<Rightarrow> bool" where
  "fin_positive (Fin a) = (0 < a)"
| "fin_positive x = False"

fun finite_sample :: "call \<Rightarrow> bool" where
  "finite_sample (Add (Fin a)) = True"
| "finite_sample (Add x) = False"
| "finite_sample c = True"

text \<open>The term \<open>delta * (value - mMean)\<close> that \<open>add\<close> puts into \<open>mM2\<close>: the
  same bindings as in \<open>add\<close>, the mean being the updated one.\<close>

definition add_increment :: "Statistics \<Rightarrow> fp \<Rightarrow> fp" where
  "add_increment s val =
     (let delta = val - KahanSum_value (mMean s);
          mWeight' = 1 + mAlpha s * mWeight s;
          mMean' = KahanSum_add (mMean s) (delta / mWeight')
      in delta * (val - KahanSum_value mMean'))"

text \<open>The mean and the sum of squared deviations of a list of reals, as in a
  textbook.\<close>

definition mean_of :: "real list \<Rightarrow> real" where
  "mean_of xs = sum_list xs / real (length xs)"

definition sq_dev :: "real \<Rightarrow> real list \<Rightarrow> real" where
  "sq_dev c xs = sum_list (map (\<lambda>y. (y - c) * (y - c)) xs)"

text \<open>Both engines, constructed with alpha 1 and fed the same finite samples.\<close>

definition feed :: "real list \<Rightarrow> Statistics" where
  "feed xs = run (Statistics_new (Fin 1)) (map Add (map Fin xs))"

definition ref_feed :: "real list \<Rightarrow> ReferenceStatistics" where
  "ref_feed xs = foldl ref_add (ReferenceStatistics_new (Fin 1)) (map Fin xs)"

section \<open>Invariants of the online engine\<close>

text \<open>The weights are finite; none are there before the first sample, the weight is
  at least 1 from the first sample on, and its square exceeds \<open>mWeight2\<close> from the
  second sample on.\<close>

definition weights_ok :: "Statistics \<Rightarrow> bool" where
  "weights_ok s =
     (\<exists>w w2. mWeight s = Fin w \<and> mWeight2 s = Fin w2 \<and> 0 \<le> mN s
        \<and> (mN s = 0 \<longrightarrow> w = 0 \<and> w2 = 0)
        \<and> (1 \<le> mN s \<longrightarrow> 1 \<le> w \<and> w2 \<le> w * w)
        \<and> (2 \<le> mN s \<longrightarrow> w2 < w * w))"

text \<open>The accumulators are finite, the Kahan correction is zero (nothing is lost in
  exact arithmetic), and \<open>mM2\<close> is not negative.\<close>

definition accum_ok :: "Statistics \<Rightarrow> bool" where
  "accum_ok s =
     (\<exists>w mu m2. mWeight s = Fin w \<and> 0 \<le> w \<and> (1 \<le> mN s \<longrightarrow> 1 \<le> w)
        \<and> mMean s = \<lparr>mSum = Fin mu, mCorrection = Fin 0\<rparr>
        \<and> mM2 s = Fin m2 \<and> 0 \<le> m2)"

text \<open>What links the two weights while alpha stays at \<open>a\<close>.\<close>

definition const_alpha_ok :: "real \<Rightarrow> Statistics \<Rightarrow> bool" where
  "const_alpha_ok a s =
     (\<exists>w w2. mAlpha s = Fin a \<and> mWeight s = Fin w \<and> mWeight2 s = Fin w2 \<and> 0 \<le> w
        \<and> (1 \<le> mN s \<longrightarrow> 1 \<le> w) \<and> w2 * (1 + a) = 2 * w - w * w * (1 - a))"

section \<open>Arithmetic on finite numbers\<close>

lemma fin_plus: "Fin a + Fin b = Fin (a + b)"
  by (simp add: plus_fp_def)

lemma fin_minus: "Fin a - Fin b = Fin (a - b)"
  by (simp add: minus_fp_def)

lemma fin_times: "Fin a * Fin b = Fin (a * b)"
  by (simp add: times_fp_def)

lemma fin_divide: "b \<noteq> 0 \<Longrightarrow> Fin a / Fin b = Fin (a / b)"
  by (simp add: divide_fp_def)

lemma fin_less: "Fin a < Fin b \<longleftrightarrow> a < b"
  by (simp add: less_fp_def)

lemmas fin_arith = fin_plus fin_minus fin_times fin_divide fin_less zero_fp_def one_fp_def

lemma fin_le: "Fin a \<le> Fin b \<longleftrightarrow> a \<le> b"
  by (auto simp add: less_eq_fp_def fp_eq_def)

lemma not_less_NaN: "\<not> x < NaN" "\<not> NaN < x"
  by (cases x; simp add: less_fp_def)+

section \<open>Reset\<close>

text \<open>
  C5. \<open>reset()\<close> brings any engine to the state of a freshly constructed engine with
  the same alpha: count, weight and mean are zero, the minimum is the positive-infinity
  sentinel, the maximum the negative-infinity sentinel, alpha is unchanged, and any
  further sequence of calls runs as it does on the fresh engine.
\<close>

theorem reset_is_fresh:
  "reset s = Statistics_new (mAlpha s)
   \<and> getN (reset s) = 0 \<and> getWeight (reset s) = 0 \<and> getMean (reset s) = 0
   \<and> getMin (reset s) = PInf \<and> getMax (reset s) = NInf
   \<and> mAlpha (reset s) = mAlpha s
   \<and> run (reset s) cs = run (Statistics_new (mAlpha s)) cs"
proof -
  have fresh: "reset s = Statistics_new (mAlpha s)"
    by (simp add: reset_def Statistics_new_def KahanSum_reset_def KahanSum_init_def)
  show ?thesis
    unfolding fresh
    by (simp add: Statistics_new_def getN_def getWeight_def getMean_def getMin_def
        getMax_def KahanSum_value_def KahanSum_init_def mPositiveInfinity_def
        mNegativeInfinity_def)
qed


section \<open>Undefined variances and a single sample\<close>

text \<open>
  C6 (as amended). In every state of the online engine \<open>getVariance()\<close> returns
  zero when the count is below 2 and \<open>getPopVariance()\<close> returns zero when the count
  is below 1. After adding exactly one finite sample \<open>v\<close> to a fresh engine whose
  alpha is finite, the count is 1, the mean is \<open>v\<close>, and both variances are zero.
\<close>

theorem variance_sentinels:
  "(mN s < 2 \<longrightarrow> getVariance s = 0) \<and> (mN s < 1 \<longrightarrow> getPopVariance s = 0)
   \<and> getN (add (Statistics_new (Fin a)) (Fin v)) = 1
   \<and> getMean (add (Statistics_new (Fin a)) (Fin v)) = Fin v
   \<and> getVariance (add (Statistics_new (Fin a)) (Fin v)) = 0
   \<and> getPopVariance (add (Statistics_new (Fin a)) (Fin v)) = 0"
  by (simp add: add_def Statistics_new_def getN_def getMean_def getVariance_def
      getPopVariance_def KahanSum_add_def KahanSum_value_def KahanSum_init_def fin_arith Let_def)

theorem variance_sentinels_witness:
  "mN (Statistics_new 1) < 2 \<and> getVariance (Statistics_new 1) = 0
   \<and> mN (Statistics_new 1) < 1 \<and> getPopVariance (Statistics_new 1) = 0
   \<and> getMean (add (Statistics_new (Fin 1)) (Fin 5)) = Fin 5
   \<and> getPopVariance (add (Statistics_new (Fin 1)) (Fin 5)) = 0"
  using variance_sentinels [of "Statistics_new 1" 1 5]
  by (simp add: Statistics_new_def)

text \<open>
  The claim as stated covers every sample. A Not-a-Number sample makes \<open>delta\<close> and
  with it \<open>mM2\<close> Not-a-Number, so the population variance after that single sample is
  Not-a-Number, not zero.
\<close>

theorem single_nan_sample_counterexample:
  "getPopVariance (add (Statistics_new 1) NaN) \<noteq> 0"
  by (simp add: add_def Statistics_new_def getPopVariance_def KahanSum_add_def
      KahanSum_value_def KahanSum_init_def fin_arith Let_def minus_fp_def plus_fp_def
      times_fp_def divide_fp_def)

section \<open>Minimum and maximum with Not-a-Number samples\<close>

lemma run_adds_mMin: "mMin (run s (map Add xs)) = foldl std_min (mMin s) xs"
  by (induction xs arbitrary: s) (simp_all add: run_def add_def Let_def)

lemma run_adds_mMax: "mMax (run s (map Add xs)) = foldl std_max (mMax s) xs"
  by (induction xs arbitrary: s) (simp_all add: run_def add_def Let_def)

lemma run_adds_mN: "mN (run s (map Add xs)) = mN s + int (length xs)"
  by (induction xs arbitrary: s) (simp_all add: run_def add_def Let_def)

lemma std_min_NaN: "std_min m NaN = m"
  by (simp add: std_min_def not_less_NaN)

lemma std_max_NaN: "std_max m NaN = m"
  by (simp add: std_max_def not_less_NaN)

lemma std_min_Fin: "std_min (Fin m) (Fin a) = Fin (min m a)"
  by (simp add: std_min_def less_fp_def min_def)

lemma std_max_Fin: "std_max (Fin m) (Fin a) = Fin (max m a)"
  by (simp add: std_max_def less_fp_def max_def)

lemma std_min_PInf: "std_min PInf (Fin a) = Fin a"
  by (simp add: std_min_def less_fp_def)

lemma std_max_NInf: "std_max NInf (Fin a) = Fin a"
  by (simp add: std_max_def less_fp_def)

lemma foldl_min_Fin:
  "list_all nan_or_finite xs \<Longrightarrow>
   foldl std_min (Fin m) xs = Fin (Min (insert m (set (finite_values xs))))"
proof (induction xs arbitrary: m)
  case Nil
  then show ?case by simp
next
  case (Cons x xs)
  show ?case
  proof (cases x)
    case NaN
    with Cons show ?thesis by (simp add: std_min_NaN)
  next
    case (Fin a)
    have "Min (insert (min m a) (set (finite_values xs)))
        = Min (insert m (insert a (set (finite_values xs))))"
      by (cases "finite_values xs = []") (simp_all add: min.assoc)
    with Cons Fin show ?thesis by (simp add: std_min_Fin)
  qed (use Cons in \<open>simp_all add: nan_or_finite_def\<close>)
qed

lemma foldl_max_Fin:
  "list_all nan_or_finite xs \<Longrightarrow>
   foldl std_max (Fin m) xs = Fin (Max (insert m (set (finite_values xs))))"
proof (induction xs arbitrary: m)
  case Nil
  then show ?case by simp
next
  case (Cons x xs)
  show ?case
  proof (cases x)
    case NaN
    with Cons show ?thesis by (simp add: std_max_NaN)
  next
    case (Fin a)
    have "Max (insert (max m a) (set (finite_values xs)))
        = Max (insert m (insert a (set (finite_values xs))))"
      by (cases "finite_values xs = []") (simp_all add: max.assoc)
    with Cons Fin show ?thesis by (simp add: std_max_Fin)
  qed (use Cons in \<open>simp_all add: nan_or_finite_def\<close>)
qed

lemma foldl_min_PInf:
  "list_all nan_or_finite xs \<Longrightarrow> finite_values xs \<noteq> [] \<Longrightarrow>
   foldl std_min PInf xs = Fin (Min (set (finite_values xs)))"
proof (induction xs)
  case Nil
  then show ?case by simp
next
  case (Cons x xs)
  show ?case
  proof (cases x)
    case NaN
    with Cons show ?thesis by (simp add: std_min_NaN)
  next
    case (Fin a)
    with Cons show ?thesis by (simp add: std_min_PInf foldl_min_Fin)
  qed (use Cons in \<open>simp_all add: nan_or_finite_def\<close>)
qed

lemma foldl_max_NInf:
  "list_all nan_or_finite xs \<Longrightarrow> finite_values xs \<noteq> [] \<Longrightarrow>
   foldl std_max NInf xs = Fin (Max (set (finite_values xs)))"
proof (induction xs)
  case Nil
  then show ?case by simp
next
  case (Cons x xs)
  show ?case
  proof (cases x)
    case NaN
    with Cons show ?thesis by (simp add: std_max_NaN)
  next
    case (Fin a)
    with Cons show ?thesis by (simp add: std_max_NInf foldl_max_Fin)
  qed (use Cons in \<open>simp_all add: nan_or_finite_def\<close>)
qed

text \<open>
  C4. When the samples added to a fresh online engine are finite numbers and
  Not-a-Numbers, with at least one finite number among them, \<open>getMin()\<close> and
  \<open>getMax()\<close> are the minimum and the maximum of the finite samples alone, and
  \<open>getN()\<close> counts every sample, the Not-a-Numbers included.
\<close>

theorem nan_never_tracked:
  assumes "list_all nan_or_finite xs" and "finite_values xs \<noteq> []"
  shows "getMin (run (Statistics_new alpha) (map Add xs)) = Fin (Min (set (finite_values xs)))
       \<and> getMax (run (Statistics_new alpha) (map Add xs)) = Fin (Max (set (finite_values xs)))
       \<and> getN (run (Statistics_new alpha) (map Add xs)) = int (length xs)"
  using assms
  by (simp add: getMin_def getMax_def getN_def run_adds_mMin run_adds_mMax run_adds_mN
      foldl_min_PInf foldl_max_NInf Statistics_new_def mPositiveInfinity_def
      mNegativeInfinity_def)

theorem nan_never_tracked_witness:
  "list_all nan_or_finite [Fin 3, NaN, Fin (-1), Fin 2]
   \<and> finite_values [Fin 3, NaN, Fin (-1), Fin 2] \<noteq> []
   \<and> getMin (run (Statistics_new 1) (map Add [Fin 3, NaN, Fin (-1), Fin 2])) = Fin (-1)
   \<and> getMax (run (Statistics_new 1) (map Add [Fin 3, NaN, Fin (-1), Fin 2])) = Fin 3
   \<and> getN (run (Statistics_new 1) (map Add [Fin 3, NaN, Fin (-1), Fin 2])) = 4"
  using nan_never_tracked [of "[Fin 3, NaN, Fin (-1), Fin 2]" 1]
  by (simp add: nan_or_finite_def)

section \<open>Minimum and maximum of the reference engine\<close>

text \<open>
  C7. In the reference engine the first sample after construction or reset (the count
  is zero then, and it is not zero after any \<open>add\<close>) becomes both minimum and
  maximum, whatever it is. A later sample replaces the maximum exactly when it is
  greater than the maximum and leaves the minimum alone then; otherwise it replaces
  the minimum exactly when it is less than the minimum (the source tests the minimum in
  the \<open>else\<close> branch of the test of the maximum). So the maximum changes only for a
  sample above it, the minimum only for a sample below it, and a Not-a-Number added
  later changes neither. The online engine starts from the infinity sentinels instead,
  so its first sample, if Not-a-Number, leaves them in place.
\<close>

theorem reference_min_max:
  "(ref_getN r = 0 \<longrightarrow> ref_getMin (ref_add r v) = v \<and> ref_getMax (ref_add r v) = v)
   \<and> ref_getN (ReferenceStatistics_new alpha) = 0 \<and> ref_getN (ref_reset r) = 0
   \<and> ref_getN (ref_add r v) \<noteq> 0
   \<and> (ref_getN r \<noteq> 0 \<longrightarrow>
        ref_getMax (ref_add r v) = (if v > ref_getMax r then v else ref_getMax r)
        \<and> ref_getMin (ref_add r v)
            = (if v > ref_getMax r then ref_getMin r
               else if v < ref_getMin r then v else ref_getMin r)
        \<and> (ref_getMax (ref_add r v) \<noteq> ref_getMax r \<longrightarrow> v > ref_getMax r)
        \<and> (ref_getMin (ref_add r v) \<noteq> ref_getMin r \<longrightarrow> v < ref_getMin r)
        \<and> ref_getMin (ref_add r NaN) = ref_getMin r
        \<and> ref_getMax (ref_add r NaN) = ref_getMax r)
   \<and> getMin (add (Statistics_new alpha) NaN) = PInf
   \<and> getMax (add (Statistics_new alpha) NaN) = NInf"
  by (simp add: ref_getN_def ref_getMin_def ref_getMax_def ref_add_def ref_reset_def
      ReferenceStatistics_new_def Let_def not_less_NaN getMin_def getMax_def add_def
      Statistics_new_def std_min_def std_max_def mPositiveInfinity_def mNegativeInfinity_def)

theorem reference_min_max_witness:
  "ref_getN (ReferenceStatistics_new 1) = 0
   \<and> ref_getMin (ref_add (ReferenceStatistics_new 1) NaN) = NaN
   \<and> ref_getMax (ref_add (ReferenceStatistics_new 1) NaN) = NaN
   \<and> ref_getN (ref_add (ReferenceStatistics_new 1) (Fin 5)) \<noteq> 0
   \<and> ref_getMax (ref_add (ref_add (ReferenceStatistics_new 1) (Fin 5)) (Fin 7)) = Fin 7
   \<and> ref_getMin (ref_add (ref_add (ReferenceStatistics_new 1) (Fin 5)) (Fin 7)) = Fin 5
   \<and> ref_getMin (ref_add (ref_add (ReferenceStatistics_new 1) (Fin 5)) (Fin 3)) = Fin 3
   \<and> ref_getMax (ref_add (ref_add (ReferenceStatistics_new 1) (Fin 5)) (Fin 3)) = Fin 5
   \<and> ref_getMin (ref_add (ref_add (ReferenceStatistics_new 1) (Fin 5)) NaN) = Fin 5
   \<and> ref_getMax (ref_add (ref_add (ReferenceStatistics_new 1) (Fin 5)) NaN) = Fin 5"
  using reference_min_max [of "ReferenceStatistics_new 1" NaN 1]
    reference_min_max [of "ref_add (ReferenceStatistics_new 1) (Fin 5)" "Fin 7" 1]
    reference_min_max [of "ref_add (ReferenceStatistics_new 1) (Fin 5)" "Fin 3" 1]
  by (simp add: ref_getN_def ref_getMin_def ref_getMax_def ref_add_def
      ReferenceStatistics_new_def Let_def fin_less)

section \<open>The divisors of the variances\<close>

lemma fin_nonnegE: "fin_nonneg x \<Longrightarrow> (\<And>a. x = Fin a \<Longrightarrow> 0 \<le> a \<Longrightarrow> P) \<Longrightarrow> P"
  by (cases x) simp_all

lemma fin_positiveE: "fin_positive x \<Longrightarrow> (\<And>a. x = Fin a \<Longrightarrow> 0 < a \<Longrightarrow> P) \<Longrightarrow> P"
  by (cases x) simp_all

lemma weights_ok_add:
  assumes "weights_ok s" "fin_positive (mAlpha s)"
  shows "weights_ok (add s v)"
proof -
  from assms(2) obtain a where a: "mAlpha s = Fin a" "0 < a" by (rule fin_positiveE)
  from assms(1) obtain w w2 where s: "mWeight s = Fin w" "mWeight2 s = Fin w2" "0 \<le> mN s"
    "mN s = 0 \<longrightarrow> w = 0 \<and> w2 = 0" "1 \<le> mN s \<longrightarrow> 1 \<le> w \<and> w2 \<le> w * w"
    by (auto simp add: weights_ok_def)
  have w0: "0 \<le> w" and sq: "w2 \<le> w * w"
    using s(3,4,5) by (cases "mN s = 0"; simp)+
  have new: "mWeight (add s v) = Fin (1 + a * w)" "mWeight2 (add s v) = Fin (1 + a * a * w2)"
    "mN (add s v) = mN s + 1"
    using a s by (simp_all add: add_def Let_def fin_arith)
  have diff: "(1 + a * w) * (1 + a * w) - (1 + a * a * w2) = 2 * (a * w) + a * a * (w * w - w2)"
    by (simp add: algebra_simps)
  have "0 \<le> a * w" using a w0 by simp
  moreover have "0 \<le> a * a * (w * w - w2)" using sq by simp
  ultimately have le: "1 + a * a * w2 \<le> (1 + a * w) * (1 + a * w)" and one: "1 \<le> 1 + a * w"
    using diff by linarith+
  have lt: "1 + a * a * w2 < (1 + a * w) * (1 + a * w)" if "1 \<le> mN s"
  proof -
    have "1 \<le> w" using s(5) that by simp
    then have "0 < a * w" using a by simp
    with \<open>0 \<le> a * a * (w * w - w2)\<close> diff show ?thesis by linarith
  qed
  show ?thesis
    unfolding weights_ok_def new using s(3) le one lt by auto
qed

lemma weights_ok_run:
  "weights_ok s \<Longrightarrow> adds_with fin_positive (mAlpha s) cs \<Longrightarrow> weights_ok (run s cs)"
proof (induction cs arbitrary: s)
  case Nil
  then show ?case by (simp add: run_def)
next
  case (Cons c cs)
  show ?case
  proof (cases c)
    case (Add v)
    have "weights_ok (add s v)" using Cons.prems Add by (intro weights_ok_add) simp_all
    moreover have "mAlpha (add s v) = mAlpha s" by (simp add: add_def Let_def)
    ultimately show ?thesis using Cons.IH [of "add s v"] Cons.prems Add
      by (simp add: run_def)
  next
    case (SetAlpha b)
    have "weights_ok (setAlpha s b)" using Cons.prems by (simp add: weights_ok_def setAlpha_def)
    then show ?thesis using Cons.IH [of "setAlpha s b"] Cons.prems SetAlpha
      by (simp add: run_def setAlpha_def)
  next
    case Reset
    have "weights_ok (reset s)"
      by (simp add: weights_ok_def reset_def zero_fp_def)
    then show ?thesis using Cons.IH [of "reset s"] Cons.prems Reset
      by (simp add: run_def reset_def)
  qed
qed

lemma weights_ok_new: "weights_ok (Statistics_new alpha)"
  by (simp add: weights_ok_def Statistics_new_def zero_fp_def)

lemma weights_ok_divisors:
  assumes "weights_ok s"
  shows "(2 \<le> mN s \<longrightarrow> 0 < getSampleWeight s \<and> mWeight2 s < mWeight s * mWeight s)
       \<and> (1 \<le> mN s \<longrightarrow> 0 < mWeight s)"
proof -
  from assms obtain w w2 where s: "mWeight s = Fin w" "mWeight2 s = Fin w2"
    "1 \<le> mN s \<longrightarrow> 1 \<le> w" "2 \<le> mN s \<longrightarrow> w2 < w * w"
    by (auto simp add: weights_ok_def)
  have "0 < w - w2 / w" if "2 \<le> mN s"
  proof -
    have w: "1 \<le> w" and lt: "w2 < w * w" using s(3,4) that by simp_all
    then have "w2 / w < w" by (simp add: pos_divide_less_eq)
    then show ?thesis by simp
  qed
  moreover have "w \<noteq> 0" if "2 \<le> mN s" using s(3) that by auto
  ultimately show ?thesis
    using s by (auto simp add: getSampleWeight_def fin_arith)
qed

text \<open>
  C10. After any sequence of calls in which the alpha in effect at every \<open>add\<close> was
  finite and strictly positive, and whatever the samples were: when the count is at
  least 2, the divisor \<open>weight - weight2/weight\<close> of \<open>getVariance()\<close> is strictly
  positive and \<open>weight2 < weight * weight\<close>; when the count is at least 1, the divisor
  \<open>weight\<close> of \<open>getPopVariance()\<close> is strictly positive.
\<close>

theorem sample_weight_positive:
  assumes "adds_with fin_positive alpha cs"
  shows "(2 \<le> getN (run (Statistics_new alpha) cs) \<longrightarrow>
            0 < getSampleWeight (run (Statistics_new alpha) cs)
          \<and> mWeight2 (run (Statistics_new alpha) cs)
              < mWeight (run (Statistics_new alpha) cs) * mWeight (run (Statistics_new alpha) cs))
       \<and> (1 \<le> getN (run (Statistics_new alpha) cs) \<longrightarrow> 0 < mWeight (run (Statistics_new alpha) cs))"
proof -
  have "mAlpha (Statistics_new alpha) = alpha"
    by (simp add: Statistics_new_def)
  then have "weights_ok (run (Statistics_new alpha) cs)"
    using weights_ok_run [OF weights_ok_new, of alpha cs] assms by simp
  then show ?thesis
    unfolding getN_def by (rule weights_ok_divisors)
qed

theorem sample_weight_positive_witness:
  "adds_with fin_positive (Fin (1/2)) [Add (Fin 1), SetAlpha (Fin 2), Add NaN]
   \<and> 2 \<le> getN (run (Statistics_new (Fin (1/2))) [Add (Fin 1), SetAlpha (Fin 2), Add NaN])
   \<and> getSampleWeight (run (Statistics_new (Fin (1/2))) [Add (Fin 1), SetAlpha (Fin 2), Add NaN])
        = Fin (4/3)
   \<and> 0 < getSampleWeight (run (Statistics_new (Fin (1/2))) [Add (Fin 1), SetAlpha (Fin 2), Add NaN])
   \<and> 0 < mWeight (run (Statistics_new (Fin (1/2))) [Add (Fin 1), SetAlpha (Fin 2), Add NaN])"
  using sample_weight_positive [of "Fin (1/2)" "[Add (Fin 1), SetAlpha (Fin 2), Add NaN]"]
  by (simp add: run_def add_def setAlpha_def Statistics_new_def getN_def getSampleWeight_def
      Let_def fin_arith)

section \<open>The bias correction under a constant alpha\<close>

lemma const_alpha_ok_add:
  assumes "const_alpha_ok a s" "0 \<le> a"
  shows "const_alpha_ok a (add s v)"
proof -
  from assms(1) obtain w w2 where s: "mAlpha s = Fin a" "mWeight s = Fin w" "mWeight2 s = Fin w2"
    "0 \<le> w" "w2 * (1 + a) = 2 * w - w * w * (1 - a)"
    by (auto simp add: const_alpha_ok_def)
  have new: "mWeight (add s v) = Fin (1 + a * w)" "mWeight2 (add s v) = Fin (1 + a * a * w2)"
    "mAlpha (add s v) = Fin a"
    using s by (simp_all add: add_def Let_def fin_arith)
  have "(1 + a * a * w2) * (1 + a) = 1 + a + a * a * (w2 * (1 + a))"
    by (simp add: algebra_simps)
  also have "\<dots> = 2 * (1 + a * w) - (1 + a * w) * (1 + a * w) * (1 - a)"
    unfolding s(5) by (simp add: algebra_simps)
  finally have id: "(1 + a * a * w2) * (1 + a) = 2 * (1 + a * w) - (1 + a * w) * (1 + a * w) * (1 - a)" .
  have "0 \<le> a * w" using assms(2) s(4) by simp
  then show ?thesis
    unfolding const_alpha_ok_def new using id by auto
qed

lemma const_alpha_ok_adds:
  "const_alpha_ok a s \<Longrightarrow> 0 \<le> a \<Longrightarrow> const_alpha_ok a (run s (map Add xs))"
  by (induction xs arbitrary: s) (simp_all add: run_def const_alpha_ok_add)

lemma const_alpha_ok_new: "const_alpha_ok a (Statistics_new (Fin a))"
  by (simp add: const_alpha_ok_def Statistics_new_def zero_fp_def)

lemma const_alpha_sample_weight:
  assumes "const_alpha_ok a s" "0 \<le> a" "1 \<le> mN s"
  shows "getSampleWeight s = (mWeight s - 1) * Fin 2 / (1 + Fin a)"
proof -
  from assms obtain w w2 where s: "mAlpha s = Fin a" "mWeight s = Fin w" "mWeight2 s = Fin w2"
    "1 \<le> w" "w2 * (1 + a) = 2 * w - w * w * (1 - a)"
    by (auto simp add: const_alpha_ok_def)
  have nz: "w \<noteq> 0" "1 + a \<noteq> 0" using s(4) assms(2) by auto
  have "w2 = (2 * w - w * w * (1 - a)) / (1 + a)"
    using s(5) nz by (simp add: field_simps)
  then have "w - w2 / w = (w - 1) * 2 / (1 + a)"
    using nz by (simp add: field_simps)
  then show ?thesis
    using s nz by (simp add: getSampleWeight_def fin_arith)
qed

text \<open>
  C2 (as amended). The divisor of \<open>getVariance()\<close> is \<open>weight - weight2/weight\<close>.
  In exact arithmetic, when a fresh engine with a finite alpha \<open>a \<ge> 0\<close> is given at
  least one sample and alpha is never changed, that term equals
  \<open>(weight - 1) * 2 / (1 + a)\<close>, the formula of the comment in
  \<open>getSampleWeight\<close>; it equals \<open>weight - 1\<close> when \<open>a = 1\<close>. The equalities are
  those of the real numbers: the finite values of \<open>fp\<close> are not rounded (under the
  rounding of a floating-point type the two sides of the general equality can differ
  in the last place, see \<open>constant_alpha_rounded\<close> below).
\<close>

theorem sample_weight_constant_alpha:
  assumes "0 \<le> a" and "xs \<noteq> []"
  shows "getVariance (run (Statistics_new (Fin a)) (map Add xs))
           = (if mN (run (Statistics_new (Fin a)) (map Add xs)) < 2 then 0
              else mM2 (run (Statistics_new (Fin a)) (map Add xs))
                   / (mWeight (run (Statistics_new (Fin a)) (map Add xs))
                      - mWeight2 (run (Statistics_new (Fin a)) (map Add xs))
                        / mWeight (run (Statistics_new (Fin a)) (map Add xs))))
       \<and> getSampleWeight (run (Statistics_new (Fin a)) (map Add xs))
           = (mWeight (run (Statistics_new (Fin a)) (map Add xs)) - 1) * Fin 2 / (1 + Fin a)
       \<and> (a = 1 \<longrightarrow> getSampleWeight (run (Statistics_new (Fin a)) (map Add xs))
           = mWeight (run (Statistics_new (Fin a)) (map Add xs)) - 1)"
proof -
  let ?s = "run (Statistics_new (Fin a)) (map Add xs)"
  have ok: "const_alpha_ok a ?s"
    using assms(1) by (intro const_alpha_ok_adds const_alpha_ok_new)
  have "mN ?s = mN (Statistics_new (Fin a)) + int (length xs)"
    by (rule run_adds_mN)
  then have n: "1 \<le> mN ?s"
    using assms(2) by (cases xs) (simp_all add: Statistics_new_def)
  have gen: "getSampleWeight ?s = (mWeight ?s - 1) * Fin 2 / (1 + Fin a)"
    using ok assms(1) n by (rule const_alpha_sample_weight)
  obtain w where w: "mWeight ?s = Fin w" using ok by (auto simp add: const_alpha_ok_def)
  have "(Fin w - 1) * Fin 2 / (1 + Fin 1) = Fin w - 1"
    by (simp add: fin_arith)
  then have "a = 1 \<longrightarrow> (mWeight ?s - 1) * Fin 2 / (1 + Fin a) = mWeight ?s - 1"
    unfolding w by blast
  with gen have "getSampleWeight ?s = (mWeight ?s - 1) * Fin 2 / (1 + Fin a)
      \<and> (a = 1 \<longrightarrow> getSampleWeight ?s = mWeight ?s - 1)"
    by metis
  then show ?thesis
    by (simp add: getVariance_def getSampleWeight_def)
qed

theorem sample_weight_constant_alpha_witness:
  "(0::real) \<le> 1/2 \<and> [Fin 1, Fin 3] \<noteq> []
   \<and> getSampleWeight (run (Statistics_new (Fin (1/2))) (map Add [Fin 1, Fin 3])) = Fin (2/3)
   \<and> (mWeight (run (Statistics_new (Fin (1/2))) (map Add [Fin 1, Fin 3])) - 1) * Fin 2
        / (1 + Fin (1/2)) = Fin (2/3)
   \<and> getSampleWeight (run (Statistics_new (Fin 1)) (map Add [Fin 1, Fin 3]))
        = mWeight (run (Statistics_new (Fin 1)) (map Add [Fin 1, Fin 3])) - 1"
  using sample_weight_constant_alpha [of "1/2" "[Fin 1, Fin 3]"]
    sample_weight_constant_alpha [of 1 "[Fin 1, Fin 3]"]
  by (simp add: run_def add_def Statistics_new_def getSampleWeight_def Let_def fin_arith)

text \<open>
  The claim as stated has the term equal to \<open>weight - 1\<close> for any constant alpha.
  With alpha held at 1/2 and two samples, the weight is 3/2 and \<open>mWeight2\<close> is 5/4:
  the term is 2/3, and \<open>weight - 1\<close> is 1/2.
\<close>

theorem constant_alpha_half_counterexample:
  "getSampleWeight (run (Statistics_new (Fin (1/2))) (map Add [Fin 1, Fin 3])) = Fin (2/3)
   \<and> mWeight (run (Statistics_new (Fin (1/2))) (map Add [Fin 1, Fin 3])) - 1 = Fin (1/2)
   \<and> getSampleWeight (run (Statistics_new (Fin (1/2))) (map Add [Fin 1, Fin 3]))
       \<noteq> mWeight (run (Statistics_new (Fin (1/2))) (map Add [Fin 1, Fin 3])) - 1"
  by (simp add: run_def add_def Statistics_new_def getSampleWeight_def Let_def fin_arith)

text \<open>
  What rounding does to the general equality. With alpha held at 1/2 and four samples
  the weight is 15/8 and \<open>mWeight2\<close> is 85/64, both numbers of double precision. In
  double precision \<open>mWeight - mWeight2 / mWeight\<close> then comes out one unit in the
  last place below \<open>(mWeight - 1) * 2 / (1 + mAlpha)\<close>, every operation being
  rounded to nearest: the equality of the two is one of exact arithmetic only.
\<close>

lemma constant_alpha_rounded:
  "mWeight (run (Statistics_new (Fin (1/2))) (map Add [Fin 1, Fin 2, Fin 3, Fin 4])) = Fin (15/8)
   \<and> mWeight2 (run (Statistics_new (Fin (1/2))) (map Add [Fin 1, Fin 2, Fin 3, Fin 4])) = Fin (85/64)
   \<and> round_fp binary64 (Fin (15/8)) = Fin (15/8)
   \<and> round_fp binary64 (Fin (85/64)) = Fin (85/64)
   \<and> round_fp binary64 (Fin (15/8) - round_fp binary64 (Fin (85/64) / Fin (15/8)))
       = Fin (2627099782632789 / 2251799813685248)
   \<and> round_fp binary64 (round_fp binary64 (round_fp binary64 (Fin (15/8) - 1) * Fin 2)
         / round_fp binary64 (1 + Fin (1/2)))
       = Fin (5254199565265579 / 4503599627370496)"
  by (simp add: run_def add_def Statistics_new_def Let_def fin_arith
      round_fin_def binade_def binary64_def binade_up.simps binade_down.simps
      round_half_even_def)

section \<open>The variance accumulator is never negative\<close>

lemma add_mM2: "mM2 (add s val) = mAlpha s * mM2 s + add_increment s val"
  by (simp add: add_def add_increment_def Let_def)

lemma welford_term:
  fixes x mu W :: real
  assumes "1 \<le> W"
  shows "0 \<le> (x - mu) * (x - (mu + (x - mu) / W))"
proof -
  have "(x - mu) * (x - (mu + (x - mu) / W)) = (x - mu)\<^sup>2 * ((W - 1) / W)"
    using assms by (simp add: field_simps power2_eq_square)
  also have "0 \<le> \<dots>" using assms by simp
  finally show ?thesis .
qed

lemma add_increment_fin:
  assumes "mAlpha s = Fin a" "0 \<le> a" "mWeight s = Fin w" "0 \<le> w"
    and "mMean s = \<lparr>mSum = Fin mu, mCorrection = Fin 0\<rparr>"
  shows "add_increment s (Fin x) = Fin ((x - mu) * (x - (mu + (x - mu) / (1 + a * w))))"
    and "mMean (add s (Fin x))
           = \<lparr>mSum = Fin (mu + (x - mu) / (1 + a * w)), mCorrection = Fin 0\<rparr>"
    and "mWeight (add s (Fin x)) = Fin (1 + a * w)"
    and "mN (add s (Fin x)) = mN s + 1"
proof -
  have "0 \<le> a * w" using assms by simp
  then have nz: "1 + a * w \<noteq> 0" by linarith
  show "add_increment s (Fin x) = Fin ((x - mu) * (x - (mu + (x - mu) / (1 + a * w))))"
    using assms nz
    by (simp add: add_increment_def Let_def KahanSum_add_def KahanSum_value_def fin_arith)
  show "mMean (add s (Fin x))
          = \<lparr>mSum = Fin (mu + (x - mu) / (1 + a * w)), mCorrection = Fin 0\<rparr>"
    using assms nz by (simp add: add_def Let_def KahanSum_add_def KahanSum_value_def fin_arith)
  show "mWeight (add s (Fin x)) = Fin (1 + a * w)"
    using assms by (simp add: add_def Let_def fin_arith)
  show "mN (add s (Fin x)) = mN s + 1"
    by (simp add: add_def Let_def)
qed

lemma accum_ok_add:
  assumes "accum_ok s" "fin_nonneg (mAlpha s)"
  shows "accum_ok (add s (Fin x))" and "0 \<le> add_increment s (Fin x)"
proof -
  from assms(2) obtain a where a: "mAlpha s = Fin a" "0 \<le> a" by (rule fin_nonnegE)
  from assms(1) obtain w mu m2 where s: "mWeight s = Fin w" "0 \<le> w"
    "mMean s = \<lparr>mSum = Fin mu, mCorrection = Fin 0\<rparr>" "mM2 s = Fin m2" "0 \<le> m2"
    by (auto simp add: accum_ok_def)
  have W: "1 \<le> 1 + a * w" using a s by simp
  note f = add_increment_fin [OF a s(1,2,3), of x]
  have inc: "0 \<le> (x - mu) * (x - (mu + (x - mu) / (1 + a * w)))"
    using W by (rule welford_term)
  show "0 \<le> add_increment s (Fin x)"
    using inc by (simp add: f fin_le zero_fp_def)
  have "mM2 (add s (Fin x)) = Fin (a * m2 + (x - mu) * (x - (mu + (x - mu) / (1 + a * w))))"
    by (simp add: add_mM2 f a s fin_arith)
  moreover have "0 \<le> a * m2 + (x - mu) * (x - (mu + (x - mu) / (1 + a * w)))"
    using inc a s by simp
  ultimately show "accum_ok (add s (Fin x))"
    using W unfolding accum_ok_def f by force
qed

lemma accum_ok_run:
  "accum_ok s \<Longrightarrow> adds_with fin_nonneg (mAlpha s) cs \<Longrightarrow> list_all finite_sample cs
   \<Longrightarrow> accum_ok (run s cs)"
proof (induction cs arbitrary: s)
  case Nil
  then show ?case by (simp add: run_def)
next
  case (Cons c cs)
  show ?case
  proof (cases c)
    case (Add v)
    with Cons.prems obtain x where v: "v = Fin x" by (cases v) simp_all
    have "accum_ok (add s (Fin x))" using Cons.prems Add by (intro accum_ok_add) simp_all
    moreover have "mAlpha (add s (Fin x)) = mAlpha s" by (simp add: add_def Let_def)
    ultimately show ?thesis using Cons.IH [of "add s (Fin x)"] Cons.prems Add v
      by (simp add: run_def)
  next
    case (SetAlpha b)
    have "accum_ok (setAlpha s b)" using Cons.prems by (simp add: accum_ok_def setAlpha_def)
    then show ?thesis using Cons.IH [of "setAlpha s b"] Cons.prems SetAlpha
      by (simp add: run_def setAlpha_def)
  next
    case Reset
    have "KahanSum_reset (mMean s) = \<lparr>mSum = Fin 0, mCorrection = Fin 0\<rparr>"
      by (simp add: KahanSum_reset_def zero_fp_def)
    then have "accum_ok (reset s)"
      by (simp add: accum_ok_def reset_def zero_fp_def)
    then show ?thesis using Cons.IH [of "reset s"] Cons.prems Reset
      by (simp add: run_def reset_def)
  qed
qed

lemma accum_ok_new: "accum_ok (Statistics_new alpha)"
  by (simp add: accum_ok_def Statistics_new_def KahanSum_init_def zero_fp_def)

lemma accum_ok_popvar: "accum_ok s \<Longrightarrow> 0 \<le> mM2 s \<and> 0 \<le> getPopVariance s"
  by (auto simp add: accum_ok_def getPopVariance_def fin_le fin_arith)

text \<open>
  C3. Take any sequence of calls on a fresh engine in which the samples are finite and
  the alpha in effect at every \<open>add\<close> is finite and not negative. In the state reached,
  \<open>mM2\<close> is not negative and \<open>getPopVariance()\<close> is not negative. If the alpha of
  that state is finite and not negative, then a further \<open>add\<close> of a finite sample
  contributes a term \<open>delta * (value - mean)\<close>, with the updated mean, that is not
  negative, the new \<open>mM2\<close> is alpha times the old one plus that term, and it is again
  not negative.
\<close>

theorem m2_never_negative:
  assumes "adds_with fin_nonneg alpha cs" and "list_all finite_sample cs"
  shows "0 \<le> mM2 (run (Statistics_new alpha) cs)
       \<and> 0 \<le> getPopVariance (run (Statistics_new alpha) cs)
       \<and> (fin_nonneg (mAlpha (run (Statistics_new alpha) cs)) \<longrightarrow>
            0 \<le> add_increment (run (Statistics_new alpha) cs) (Fin x)
          \<and> mM2 (add (run (Statistics_new alpha) cs) (Fin x))
              = mAlpha (run (Statistics_new alpha) cs) * mM2 (run (Statistics_new alpha) cs)
                + add_increment (run (Statistics_new alpha) cs) (Fin x)
          \<and> 0 \<le> mM2 (add (run (Statistics_new alpha) cs) (Fin x))
          \<and> 0 \<le> getPopVariance (add (run (Statistics_new alpha) cs) (Fin x)))"
proof -
  let ?s = "run (Statistics_new alpha) cs"
  have "mAlpha (Statistics_new alpha) = alpha"
    by (simp add: Statistics_new_def)
  then have ok: "accum_ok ?s"
    using accum_ok_run [OF accum_ok_new, of alpha cs] assms by simp
  show ?thesis
    using accum_ok_popvar [OF ok] accum_ok_add [OF ok, of x]
      accum_ok_popvar [of "add ?s (Fin x)"]
    by (simp add: add_mM2)
qed

theorem m2_never_negative_witness:
  "adds_with fin_nonneg 1 [Add (Fin 1), SetAlpha (Fin (1/2)), Add (Fin 4)]
   \<and> list_all finite_sample [Add (Fin 1), SetAlpha (Fin (1/2)), Add (Fin 4)]
   \<and> mM2 (run (Statistics_new 1) [Add (Fin 1), SetAlpha (Fin (1/2)), Add (Fin 4)]) = Fin 3
   \<and> getPopVariance (run (Statistics_new 1) [Add (Fin 1), SetAlpha (Fin (1/2)), Add (Fin 4)])
        = Fin 2
   \<and> fin_nonneg (mAlpha (run (Statistics_new 1) [Add (Fin 1), SetAlpha (Fin (1/2)), Add (Fin 4)]))
   \<and> add_increment (run (Statistics_new 1) [Add (Fin 1), SetAlpha (Fin (1/2)), Add (Fin 4)])
        (Fin 2) = Fin (3/7)
   \<and> 0 \<le> add_increment (run (Statistics_new 1) [Add (Fin 1), SetAlpha (Fin (1/2)), Add (Fin 4)])
        (Fin 2)"
  using m2_never_negative [of 1 "[Add (Fin 1), SetAlpha (Fin (1/2)), Add (Fin 4)]" 2]
  by (simp add: run_def add_def setAlpha_def Statistics_new_def getPopVariance_def
      add_increment_def KahanSum_add_def KahanSum_value_def KahanSum_init_def Let_def
      fin_arith fin_le)

section \<open>The online engine against the reference engine\<close>

lemma sq_dev_shift:
  "sq_dev c xs = sq_dev m xs + 2 * (m - c) * (sum_list xs - real (length xs) * m)
                 + real (length xs) * ((m - c) * (m - c))"
  by (induction xs) (simp_all add: sq_dev_def algebra_simps)

lemma sq_dev_snoc: "sq_dev c (xs @ [x]) = sq_dev c xs + (x - c) * (x - c)"
  by (simp add: sq_dev_def)

lemma mean_snoc:
  "mean_of (xs @ [x]) = mean_of xs + (x - mean_of xs) / (1 + real (length xs))"
proof (cases "xs = []")
  case True
  then show ?thesis by (simp add: mean_of_def)
next
  case False
  define n where "n = real (length xs)"
  define S where "S = sum_list xs"
  have n: "0 < n" using False by (simp add: n_def)
  then have n1: "1 + n \<noteq> 0" and n0: "n \<noteq> 0" by simp_all
  have "(S / n + (x - S / n) / (1 + n)) * (1 + n) = S / n * (1 + n) + (x - S / n)"
    using n1 by (simp add: distrib_right)
  also have "\<dots> = S + x"
    using n0 by (simp add: distrib_left)
  finally have "S / n + (x - S / n) / (1 + n) = (S + x) / (1 + n)"
    using n1 by (simp add: eq_divide_eq)
  then show ?thesis
    by (simp add: mean_of_def n_def S_def add.commute)
qed

lemma welford_step:
  "sq_dev (mean_of (xs @ [x])) (xs @ [x])
     = sq_dev (mean_of xs) xs + (x - mean_of xs) * (x - mean_of (xs @ [x]))"
proof -
  define n where "n = real (length xs)"
  define m where "m = mean_of xs"
  define d where "d = (x - m) / (1 + n)"
  have n0: "0 \<le> n" by (simp add: n_def)
  have m': "mean_of (xs @ [x]) = m + d"
    by (simp add: mean_snoc m_def d_def n_def)
  have centred: "sum_list xs - n * m = 0"
    by (cases "xs = []") (simp_all add: m_def n_def mean_of_def)
  have xm: "x - m = (1 + n) * d"
    using n0 by (simp add: d_def)
  have "sq_dev (m + d) xs = sq_dev m xs + n * (d * d)"
    using sq_dev_shift [of "m + d" xs m] centred by (simp add: n_def)
  then have "sq_dev (m + d) (xs @ [x]) = sq_dev m xs + n * (d * d) + (x - (m + d)) * (x - (m + d))"
    by (simp add: sq_dev_snoc)
  also have "x - (m + d) = n * d"
    using xm by (simp add: algebra_simps)
  also have "sq_dev m xs + n * (d * d) + n * d * (n * d) = sq_dev m xs + (1 + n) * d * (n * d)"
    by (simp add: algebra_simps)
  finally show ?thesis
    unfolding m' using xm \<open>x - (m + d) = n * d\<close> by (simp add: m_def)
qed

lemma add_closed_form:
  assumes "mAlpha s = Fin 1" "mWeight s = Fin n" "mWeight2 s = Fin n" "0 \<le> n"
    "mMean s = \<lparr>mSum = Fin m, mCorrection = Fin 0\<rparr>" "mM2 s = Fin q"
  shows "add s (Fin x)
     = s\<lparr>mMin := std_min (mMin s) (Fin x), mMax := std_max (mMax s) (Fin x), mN := mN s + 1,
          mWeight := Fin (1 + n), mWeight2 := Fin (1 + n),
          mMean := \<lparr>mSum = Fin (m + (x - m) / (1 + n)), mCorrection = Fin 0\<rparr>,
          mM2 := Fin (q + (x - m) * (x - (m + (x - m) / (1 + n))))\<rparr>"
proof -
  have nz: "1 + n \<noteq> 0" using assms(4) by linarith
  show ?thesis
    using assms nz
    by (simp add: add_def Let_def KahanSum_add_def KahanSum_value_def fin_arith)
qed

lemma feed_snoc: "feed (xs @ [x]) = add (feed xs) (Fin x)"
  by (simp add: feed_def run_def)

lemma online_closed_form:
  "feed xs
     = \<lparr>mAlpha = Fin 1,
        mMin = foldl std_min PInf (map Fin xs), mMax = foldl std_max NInf (map Fin xs),
        mN = int (length xs), mWeight = Fin (real (length xs)), mWeight2 = Fin (real (length xs)),
        mMean = \<lparr>mSum = Fin (mean_of xs), mCorrection = Fin 0\<rparr>,
        mM2 = Fin (sq_dev (mean_of xs) xs)\<rparr>"
proof (induction xs rule: rev_induct)
  case Nil
  show ?case
    by (simp add: feed_def run_def Statistics_new_def KahanSum_init_def mean_of_def sq_dev_def fin_arith
        mPositiveInfinity_def mNegativeInfinity_def)
next
  case (snoc x xs)
  let ?s = "feed xs"
  have flds: "mAlpha ?s = Fin 1" "mWeight ?s = Fin (real (length xs))" "mWeight2 ?s = Fin (real (length xs))"
    "0 \<le> real (length xs)" "mMean ?s = \<lparr>mSum = Fin (mean_of xs), mCorrection = Fin 0\<rparr>"
    "mM2 ?s = Fin (sq_dev (mean_of xs) xs)"
    by (simp_all add: snoc.IH)
  show ?case
    unfolding feed_snoc add_closed_form [OF flds]
    by (simp add: snoc.IH mean_snoc [symmetric] welford_step [symmetric] add.commute)
qed


lemma ref_feed_lists:
  "mData (ref_feed xs) = map Fin (rev xs) \<and> mAlphaList (ref_feed xs) = replicate (length xs) (Fin 1)
   \<and> ref_mAlpha (ref_feed xs) = Fin 1"
proof (induction xs rule: rev_induct)
  case Nil
  show ?case by (simp add: ref_feed_def ReferenceStatistics_new_def)
next
  case (snoc x xs)
  have "ref_feed (xs @ [x]) = ref_add (ref_feed xs) (Fin x)"
    by (simp add: ref_feed_def)
  then show ?case
    using snoc.IH by (simp add: ref_add_def Let_def)
qed

lemma getWeight_loop_ones:
  "n = length ds \<Longrightarrow>
   getWeight_loop (map Fin ds) (replicate n (Fin 1)) (Fin w) (Fin 1) = Fin (w + real (length ds))"
  by (induction ds arbitrary: w n) (simp_all add: fin_arith add.assoc)

lemma getWeight2_loop_ones:
  "n = length ds \<Longrightarrow>
   getWeight2_loop (map Fin ds) (replicate n (Fin 1)) (Fin w) (Fin 1) = Fin (w + real (length ds))"
  by (induction ds arbitrary: w n) (simp_all add: fin_arith add.assoc)

lemma getMean_loop_ones:
  "n = length ds \<Longrightarrow>
   getMean_loop (map Fin ds) (replicate n (Fin 1)) (Fin w) (Fin 1) = Fin (w + sum_list ds)"
  by (induction ds arbitrary: w n) (simp_all add: fin_arith add.assoc)

lemma getUnweightedVariance_loop_ones:
  "n = length ds \<Longrightarrow>
   getUnweightedVariance_loop (Fin m) (map Fin ds) (replicate n (Fin 1)) (Fin w) (Fin 1)
     = Fin (w + sq_dev m ds)"
  by (induction ds arbitrary: w n) (simp_all add: fin_arith add.assoc sq_dev_def Let_def)

lemma sq_dev_rev: "sq_dev m (rev xs) = sq_dev m xs"
  by (simp add: sq_dev_def rev_map [symmetric])

lemma ref_closed_form:
  assumes "xs \<noteq> []"
  shows "ref_getWeight (ref_feed xs) = Fin (real (length xs))"
    and "ref_getWeight2 (ref_feed xs) = Fin (real (length xs))"
    and "ref_getMean (ref_feed xs) = Fin (mean_of xs)"
    and "ref_getUnweightedVariance (ref_feed xs) = Fin (sq_dev (mean_of xs) xs)"
proof -
  have len: "length xs = length (rev xs)" by simp
  have nz: "real (length xs) \<noteq> 0" using assms by simp
  note lists = ref_feed_lists [THEN conjunct1] ref_feed_lists [THEN conjunct2, THEN conjunct1]
  show w: "ref_getWeight (ref_feed xs) = Fin (real (length xs))"
    unfolding ref_getWeight_def lists zero_fp_def one_fp_def
    using getWeight_loop_ones [OF len, of 0] by simp
  show "ref_getWeight2 (ref_feed xs) = Fin (real (length xs))"
    unfolding ref_getWeight2_def lists zero_fp_def one_fp_def
    using getWeight2_loop_ones [OF len, of 0] by simp
  have "getMean_loop (mData (ref_feed xs)) (mAlphaList (ref_feed xs)) 0 1 = Fin (sum_list xs)"
    unfolding lists zero_fp_def one_fp_def
    using getMean_loop_ones [OF len, of 0] by simp
  then show m: "ref_getMean (ref_feed xs) = Fin (mean_of xs)"
    using nz by (simp add: ref_getMean_def w mean_of_def fin_arith)
  show "ref_getUnweightedVariance (ref_feed xs) = Fin (sq_dev (mean_of xs) xs)"
    unfolding ref_getUnweightedVariance_def m lists zero_fp_def one_fp_def
    using getUnweightedVariance_loop_ones [OF len, of "mean_of xs" 0] by (simp add: sq_dev_rev)
qed

text \<open>
  C1 (as amended). With alpha 1 throughout and the same finite samples added in the
  same order to both engines, the online engine's \<open>getMean()\<close> equals the reference
  engine's when there is at least one sample, and its \<open>getVariance()\<close> equals the
  reference engine's when there are at least two: both means are the arithmetic mean,
  and both variances the sum of squared deviations from it over \<open>n - 1\<close>.
\<close>

theorem online_matches_reference:
  "(xs \<noteq> [] \<longrightarrow>
      getMean (run (Statistics_new 1) (map Add (map Fin xs)))
        = ref_getMean (foldl ref_add (ReferenceStatistics_new 1) (map Fin xs))
    \<and> getMean (run (Statistics_new 1) (map Add (map Fin xs))) = Fin (mean_of xs))
   \<and> (2 \<le> length xs \<longrightarrow>
      getVariance (run (Statistics_new 1) (map Add (map Fin xs)))
        = ref_getVariance (foldl ref_add (ReferenceStatistics_new 1) (map Fin xs))
    \<and> getVariance (run (Statistics_new 1) (map Add (map Fin xs)))
        = Fin (sq_dev (mean_of xs) xs / (real (length xs) - 1)))"
proof -
  have on: "run (Statistics_new 1) (map Add (map Fin xs)) = feed xs"
    by (simp add: feed_def one_fp_def)
  have rf: "foldl ref_add (ReferenceStatistics_new 1) (map Fin xs) = ref_feed xs"
    by (simp add: ref_feed_def one_fp_def)
  have mean: "getMean (feed xs) = Fin (mean_of xs)"
    by (simp add: getMean_def KahanSum_value_def online_closed_form)
  have var: "getVariance (feed xs) = Fin (sq_dev (mean_of xs) xs / (real (length xs) - 1))"
    if "2 \<le> length xs"
  proof -
    have "real (length xs) \<noteq> 0" "real (length xs) - 1 \<noteq> 0" using that by auto
    then show ?thesis
      using that
      by (simp add: getVariance_def getSampleWeight_def online_closed_form fin_arith)
  qed
  have rvar: "ref_getVariance (ref_feed xs)
                = Fin (sq_dev (mean_of xs) xs / (real (length xs) - 1))"
    if "2 \<le> length xs"
  proof -
    have ne: "xs \<noteq> []" using that by auto
    have "real (length xs) \<noteq> 0" "real (length xs) - 1 \<noteq> 0" using that by auto
    then show ?thesis
      by (simp add: ref_getVariance_def ref_closed_form [OF ne] fin_arith)
  qed
  show ?thesis
    unfolding on rf by (simp add: mean var rvar ref_closed_form)
qed

theorem online_matches_reference_witness:
  "[1, 2, 6 :: real] \<noteq> [] \<and> 2 \<le> length [1, 2, 6 :: real]
   \<and> getMean (run (Statistics_new 1) (map Add (map Fin [1, 2, 6]))) = Fin 3
   \<and> ref_getMean (foldl ref_add (ReferenceStatistics_new 1) (map Fin [1, 2, 6])) = Fin 3
   \<and> getVariance (run (Statistics_new 1) (map Add (map Fin [1, 2, 6]))) = Fin 7
   \<and> ref_getVariance (foldl ref_add (ReferenceStatistics_new 1) (map Fin [1, 2, 6])) = Fin 7"
proof -
  have "[1, 2, 6 :: real] \<noteq> []" and "2 \<le> length [1, 2, 6 :: real]"
    by simp_all
  moreover have "mean_of [1, 2, 6] = 3"
    and "sq_dev 3 [1, 2, 6] / (real (length [1, 2, 6 :: real]) - 1) = 7"
    by (simp_all add: mean_of_def sq_dev_def)
  ultimately show ?thesis
    using online_matches_reference [of "[1, 2, 6]"] by metis
qed

text \<open>
  The claim as stated covers every finite sequence. With a single sample the online
  engine's \<open>getVariance()\<close> returns its zero sentinel, the count being below 2, while
  the reference engine has no such guard and divides zero by \<open>1 - 1/1 = 0\<close>, which is
  Not-a-Number.
\<close>

theorem single_sample_variance_counterexample:
  "getVariance (run (Statistics_new 1) (map Add (map Fin [5]))) = 0
   \<and> ref_getVariance (foldl ref_add (ReferenceStatistics_new 1) (map Fin [5])) = NaN
   \<and> getVariance (run (Statistics_new 1) (map Add (map Fin [5])))
       \<noteq> ref_getVariance (foldl ref_add (ReferenceStatistics_new 1) (map Fin [5]))"
  by (simp add: run_def add_def Statistics_new_def getVariance_def ref_getVariance_def
      ref_add_def ReferenceStatistics_new_def ref_getUnweightedVariance_def ref_getWeight_def
      ref_getWeight2_def ref_getMean_def ref_getN_def Let_def fin_arith divide_fp_def)


section \<open>Values of the square root\<close>

lemma sqrt_unchecked_step:
  "rd (Fin (1 / 2) * rd (prev + rd (x / prev))) = next \<Longrightarrow> \<not> fp_eq next prev \<Longrightarrow>
   audio_utils_sqrt_unchecked rd x prev = audio_utils_sqrt_unchecked rd x next"
  by (subst audio_utils_sqrt_unchecked.simps) simp

lemma sqrt_unchecked_stop:
  "rd (Fin (1 / 2) * rd (prev + rd (x / prev))) = next \<Longrightarrow> fp_eq next prev \<Longrightarrow>
   audio_utils_sqrt_unchecked rd x prev = Some next"
  by (subst audio_utils_sqrt_unchecked.simps) simp

lemmas round_eval = round_fin_def binade_def binary64_def binary32_def binade_up.simps
  binade_down.simps round_half_even_def Let_def fin_arith fp_eq_def

text \<open>The iterates for 4 in double precision, from 1: 2.5, 2.05, 2.0006..., down to 2,
  where the next iterate is 2 again.\<close>

lemma newton_double_0:
  "round_fp binary64 (Fin (1 / 2) * round_fp binary64
     (Fin (1) + round_fp binary64 (Fin 4 / Fin (1)))) = Fin (5 / 2)"
  by (simp add: round_eval)

lemma newton_double_1:
  "round_fp binary64 (Fin (1 / 2) * round_fp binary64
     (Fin (5 / 2) + round_fp binary64 (Fin 4 / Fin (5 / 2)))) = Fin (2308094809027379 / 1125899906842624)"
  by (simp add: round_eval)

lemma newton_double_2:
  "round_fp binary64 (Fin (1 / 2) * round_fp binary64
     (Fin (2308094809027379 / 1125899906842624) + round_fp binary64 (Fin 4 / Fin (2308094809027379 / 1125899906842624)))) = Fin (4504972676037377 / 2251799813685248)"
  by (simp add: round_eval)

lemma newton_double_3:
  "round_fp binary64 (Fin (1 / 2) * round_fp binary64
     (Fin (4504972676037377 / 2251799813685248) + round_fp binary64 (Fin 4 / Fin (4504972676037377 / 2251799813685248)))) = Fin (2251799918306451 / 1125899906842624)"
  by (simp add: round_eval)

lemma newton_double_4:
  "round_fp binary64 (Fin (1 / 2) * round_fp binary64
     (Fin (2251799918306451 / 1125899906842624) + round_fp binary64 (Fin 4 / Fin (2251799918306451 / 1125899906842624)))) = Fin (4503599627370501 / 2251799813685248)"
  by (simp add: round_eval)

lemma newton_double_5:
  "round_fp binary64 (Fin (1 / 2) * round_fp binary64
     (Fin (4503599627370501 / 2251799813685248) + round_fp binary64 (Fin 4 / Fin (4503599627370501 / 2251799813685248)))) = Fin (2)"
  by (simp add: round_eval)

lemma newton_double_6:
  "round_fp binary64 (Fin (1 / 2) * round_fp binary64
     (Fin (2) + round_fp binary64 (Fin 4 / Fin (2)))) = Fin (2)"
  by (simp add: round_eval)

lemma sqrt_double_4: "audio_utils_sqrt (round_fp binary64) (Fin 4) = Some (Fin 2)"
proof -
  note step = sqrt_unchecked_step [where rd = "round_fp binary64"]
  have "audio_utils_sqrt (round_fp binary64) (Fin 4)
          = audio_utils_sqrt_unchecked (round_fp binary64) (Fin 4) (Fin 1)"
    by (simp add: audio_utils_sqrt_def audio_utils_isnan_def fp_eq_def fin_arith)
  also have "\<dots> = audio_utils_sqrt_unchecked (round_fp binary64) (Fin 4) (Fin (5 / 2))"
    by (rule step [OF newton_double_0]) (simp add: fp_eq_def)
  also have "\<dots> = audio_utils_sqrt_unchecked (round_fp binary64) (Fin 4) (Fin (2308094809027379 / 1125899906842624))"
    by (rule step [OF newton_double_1]) (simp add: fp_eq_def)
  also have "\<dots> = audio_utils_sqrt_unchecked (round_fp binary64) (Fin 4) (Fin (4504972676037377 / 2251799813685248))"
    by (rule step [OF newton_double_2]) (simp add: fp_eq_def)
  also have "\<dots> = audio_utils_sqrt_unchecked (round_fp binary64) (Fin 4) (Fin (2251799918306451 / 1125899906842624))"
    by (rule step [OF newton_double_3]) (simp add: fp_eq_def)
  also have "\<dots> = audio_utils_sqrt_unchecked (round_fp binary64) (Fin 4) (Fin (4503599627370501 / 2251799813685248))"
    by (rule step [OF newton_double_4]) (simp add: fp_eq_def)
  also have "\<dots> = audio_utils_sqrt_unchecked (round_fp binary64) (Fin 4) (Fin (2))"
    by (rule step [OF newton_double_5]) (simp add: fp_eq_def)
  also have "\<dots> = Some (Fin 2)"
    by (rule sqrt_unchecked_stop [where rd = "round_fp binary64", OF newton_double_6])
      (simp add: fp_eq_def)
  finally show ?thesis .
qed

text \<open>The same in single precision: 2.5, 2.0499999523162842, 2.0006098747253418, 2.\<close>

lemma newton_single_0:
  "round_fp binary32 (Fin (1 / 2) * round_fp binary32
     (Fin (1) + round_fp binary32 (Fin 4 / Fin (1)))) = Fin (5 / 2)"
  by (simp add: round_eval)

lemma newton_single_1:
  "round_fp binary32 (Fin (1 / 2) * round_fp binary32
     (Fin (5 / 2) + round_fp binary32 (Fin 4 / Fin (5 / 2)))) = Fin (8598323 / 4194304)"
  by (simp add: round_eval)

lemma newton_single_2:
  "round_fp binary32 (Fin (1 / 2) * round_fp binary32
     (Fin (8598323 / 4194304) + round_fp binary32 (Fin 4 / Fin (8598323 / 4194304)))) = Fin (4195583 / 2097152)"
  by (simp add: round_eval)

lemma newton_single_3:
  "round_fp binary32 (Fin (1 / 2) * round_fp binary32
     (Fin (4195583 / 2097152) + round_fp binary32 (Fin 4 / Fin (4195583 / 2097152)))) = Fin (2)"
  by (simp add: round_eval)

lemma newton_single_4:
  "round_fp binary32 (Fin (1 / 2) * round_fp binary32
     (Fin (2) + round_fp binary32 (Fin 4 / Fin (2)))) = Fin (2)"
  by (simp add: round_eval)

lemma sqrt_single_4: "audio_utils_sqrt (round_fp binary32) (Fin 4) = Some (Fin 2)"
proof -
  note step = sqrt_unchecked_step [where rd = "round_fp binary32"]
  have "audio_utils_sqrt (round_fp binary32) (Fin 4)
          = audio_utils_sqrt_unchecked (round_fp binary32) (Fin 4) (Fin 1)"
    by (simp add: audio_utils_sqrt_def audio_utils_isnan_def fp_eq_def fin_arith)
  also have "\<dots> = audio_utils_sqrt_unchecked (round_fp binary32) (Fin 4) (Fin (5 / 2))"
    by (rule step [OF newton_single_0]) (simp add: fp_eq_def)
  also have "\<dots> = audio_utils_sqrt_unchecked (round_fp binary32) (Fin 4) (Fin (8598323 / 4194304))"
    by (rule step [OF newton_single_1]) (simp add: fp_eq_def)
  also have "\<dots> = audio_utils_sqrt_unchecked (round_fp binary32) (Fin 4) (Fin (4195583 / 2097152))"
    by (rule step [OF newton_single_2]) (simp add: fp_eq_def)
  also have "\<dots> = audio_utils_sqrt_unchecked (round_fp binary32) (Fin 4) (Fin (2))"
    by (rule step [OF newton_single_3]) (simp add: fp_eq_def)
  also have "\<dots> = Some (Fin 2)"
    by (rule sqrt_unchecked_stop [where rd = "round_fp binary32", OF newton_single_4])
      (simp add: fp_eq_def)
  finally show ?thesis .
qed

lemma sqrt_checks:
  "audio_utils_sqrt rd (Fin 0) = Some (Fin 0)
   \<and> audio_utils_sqrt rd (Fin (- 1)) = Some NaN
   \<and> audio_utils_sqrt rd PInf = Some PInf
   \<and> (x < 0 \<longrightarrow> audio_utils_sqrt rd x = Some NaN)
   \<and> audio_utils_sqrt rd NaN = Some NaN"
  by (simp add: audio_utils_sqrt_def audio_utils_isnan_def fp_eq_def fin_arith less_fp_def)

text \<open>
  C8. In double precision (rounding to nearest, ties to even) \<open>audio_utils_sqrt(4.0)\<close>
  returns 2.0, and so it does in single precision. Whatever the rounding of the type:
  \<open>audio_utils_sqrt(0.0)\<close> returns 0.0, \<open>audio_utils_sqrt(-1.0)\<close> returns
  Not-a-Number, \<open>audio_utils_sqrt(infinity)\<close> returns infinity, every negative input
  (negative infinity included) gives Not-a-Number, and a Not-a-Number input is returned
  as it is.
\<close>

theorem audio_utils_sqrt_values:
  "audio_utils_sqrt (round_fp binary64) (Fin 4) = Some (Fin 2)
   \<and> audio_utils_sqrt (round_fp binary32) (Fin 4) = Some (Fin 2)
   \<and> audio_utils_sqrt rd (Fin 0) = Some (Fin 0)
   \<and> audio_utils_sqrt rd (Fin (- 1)) = Some NaN
   \<and> audio_utils_sqrt rd PInf = Some PInf
   \<and> (x < 0 \<longrightarrow> audio_utils_sqrt rd x = Some NaN)
   \<and> audio_utils_sqrt rd NaN = Some NaN"
  using sqrt_double_4 sqrt_single_4 sqrt_checks [of rd x] by simp

theorem audio_utils_sqrt_values_witness:
  "NInf < 0 \<and> audio_utils_sqrt (round_fp binary64) NInf = Some NaN
   \<and> Fin (- 9 / 4) < 0 \<and> audio_utils_sqrt (round_fp binary64) (Fin (- 9 / 4)) = Some NaN"
  using audio_utils_sqrt_values [of "round_fp binary64" NInf]
    audio_utils_sqrt_values [of "round_fp binary64" "Fin (- 9 / 4)"]
  by (simp add: less_fp_def zero_fp_def)

section \<open>The binade of a positive number\<close>

lemma binade_up_spec:
  "e \<le> hi + 1 \<Longrightarrow> 1 \<le> a \<Longrightarrow>
   e \<le> binade_up hi a e \<and> binade_up hi a e \<le> hi + 1
   \<and> 2 powi (binade_up hi a e - e) \<le> a
   \<and> (binade_up hi a e \<le> hi \<longrightarrow> a < 2 powi (binade_up hi a e - e + 1))"
proof (induction hi a e rule: binade_up.induct)
  case (1 hi a e)
  show ?case
  proof (cases "2 \<le> a \<and> e \<le> hi")
    case True
    then have eq: "binade_up hi a e = binade_up hi (a / 2) (e + 1)"
      by (subst binade_up.simps) simp
    have ih: "e + 1 \<le> binade_up hi (a / 2) (e + 1) \<and> binade_up hi (a / 2) (e + 1) \<le> hi + 1
      \<and> 2 powi (binade_up hi (a / 2) (e + 1) - (e + 1)) \<le> a / 2
      \<and> (binade_up hi (a / 2) (e + 1) \<le> hi \<longrightarrow>
            a / 2 < 2 powi (binade_up hi (a / 2) (e + 1) - (e + 1) + 1))"
      using "1.IH" [OF True] True by simp
    define b where "b = binade_up hi (a / 2) (e + 1)"
    have p: "(2::real) powi (b - e) = 2 * 2 powi (b - (e + 1))"
      using power_int_add_1 [of "2::real" "b - (e + 1)"] by (simp add: algebra_simps)
    have p': "(2::real) powi (b - e + 1) = 2 * 2 powi (b - (e + 1) + 1)"
      using power_int_add_1 [of "2::real" "b - (e + 1) + 1"] by (simp add: algebra_simps)
    show ?thesis
      unfolding eq using ih unfolding b_def [symmetric] p p' by auto
  next
    case False
    have eq: "binade_up hi a e = e"
      by (subst binade_up.simps) (use False in auto)
    show ?thesis
      unfolding eq using False "1.prems" by auto
  qed
qed

lemma binade_down_spec:
  "lo \<le> e \<Longrightarrow> 0 < a \<Longrightarrow> a < 2 \<Longrightarrow>
   lo \<le> binade_down lo a e \<and> binade_down lo a e \<le> e
   \<and> a < 2 powi (binade_down lo a e - e + 1)
   \<and> (lo < binade_down lo a e \<longrightarrow> 2 powi (binade_down lo a e - e) \<le> a)"
proof (induction lo a e rule: binade_down.induct)
  case (1 lo a e)
  show ?case
  proof (cases "a < 1 \<and> lo < e")
    case True
    then have eq: "binade_down lo a e = binade_down lo (a * 2) (e - 1)"
      by (subst binade_down.simps) simp
    define b where "b = binade_down lo (a * 2) (e - 1)"
    have ih: "lo \<le> b \<and> b \<le> e - 1 \<and> a * 2 < 2 powi (b - (e - 1) + 1)
      \<and> (lo < b \<longrightarrow> 2 powi (b - (e - 1)) \<le> a * 2)"
      unfolding b_def using "1.IH" [OF True] True "1.prems" by simp
    have p: "(2::real) powi (b - (e - 1) + 1) = 2 * 2 powi (b - e + 1)"
      using power_int_add_1 [of "2::real" "b - e + 1"] by (simp add: algebra_simps)
    have p': "(2::real) powi (b - (e - 1)) = 2 * 2 powi (b - e)"
      using power_int_add_1 [of "2::real" "b - e"] by (simp add: algebra_simps)
    show ?thesis
      unfolding eq b_def [symmetric] using ih unfolding p p' by auto
  next
    case False
    have eq: "binade_down lo a e = e"
      by (subst binade_down.simps) (use False in auto)
    show ?thesis
      unfolding eq using False "1.prems" by auto
  qed
qed

lemma binade_spec_conj:
  assumes "emin f \<le> 0" "0 \<le> emax f" "0 < a"
  shows "emin f \<le> binade f a \<and> binade f a \<le> emax f + 1
       \<and> (emin f < binade f a \<longrightarrow> 2 powi (binade f a) \<le> a)
       \<and> (binade f a \<le> emax f \<longrightarrow> a < 2 powi (binade f a + 1))"
proof (cases "1 \<le> a")
  case True
  with binade_up_spec [of 0 "emax f" a] assms show ?thesis
    by (simp add: binade_def)
next
  case False
  with binade_down_spec [of "emin f" 0 a] assms show ?thesis
    by (simp add: binade_def)
qed

lemma binade_spec:
  assumes "emin f \<le> 0" "0 \<le> emax f" "0 < a"
  shows "emin f \<le> binade f a" "binade f a \<le> emax f + 1"
    "emin f < binade f a \<Longrightarrow> 2 powi (binade f a) \<le> a"
    "binade f a \<le> emax f \<Longrightarrow> a < 2 powi (binade f a + 1)"
  using binade_spec_conj [OF assms] by simp_all

lemma binade_eqI:
  assumes "emin f \<le> 0" "0 \<le> emax f" "emin f \<le> e" "e \<le> emax f"
    "2 powi e \<le> a" "a < 2 powi (e + 1)"
  shows "binade f a = e"
proof -
  have "(0::real) < 2 powi e" by simp
  then have a: "0 < a" using assms(5) by linarith
  note s = binade_spec [OF assms(1,2) a]
  have "\<not> e < binade f a"
  proof
    assume l: "e < binade f a"
    then have "emin f < binade f a" using assms(3) by simp
    then have "2 powi (binade f a) \<le> a" by (rule s(3))
    moreover have "(2::real) powi (e + 1) \<le> 2 powi (binade f a)"
      using l by (intro power_int_increasing) simp_all
    ultimately show False using assms(6) by simp
  qed
  moreover have "\<not> binade f a < e"
  proof
    assume l: "binade f a < e"
    then have "binade f a \<le> emax f" using assms(4) by simp
    then have "a < 2 powi (binade f a + 1)" by (rule s(4))
    moreover have "(2::real) powi (binade f a + 1) \<le> 2 powi e"
      using l by (intro power_int_increasing) simp_all
    ultimately show False using assms(5) by simp
  qed
  ultimately show ?thesis by simp
qed

lemma binade_subnormal:
  assumes "emin f \<le> 0" "0 \<le> emax f" "0 < a" "a < 2 powi (emin f + 1)"
  shows "binade f a = emin f"
proof -
  note s = binade_spec [OF assms(1,2,3)]
  have "\<not> emin f < binade f a"
  proof
    assume l: "emin f < binade f a"
    then have "2 powi (binade f a) \<le> a" by (rule s(3))
    moreover have "(2::real) powi (emin f + 1) \<le> 2 powi (binade f a)"
      using l by (intro power_int_increasing) simp_all
    ultimately show False using assms(4) by simp
  qed
  with s(1) show ?thesis by simp
qed

section \<open>Rounding to the nearest integer\<close>

lemma rhe_of_int: "round_half_even (of_int k) = k"
  by (simp add: round_half_even_def)

lemma rhe_ge: "of_int k \<le> y \<Longrightarrow> k \<le> round_half_even y"
proof -
  assume "of_int k \<le> y"
  then have "k \<le> \<lfloor>y\<rfloor>" by (simp add: le_floor_iff)
  then show ?thesis by (simp add: round_half_even_def Let_def)
qed

lemma rhe_le: "y \<le> of_int k \<Longrightarrow> round_half_even y \<le> k"
proof (cases "y = of_int k")
  case True
  then show ?thesis by (simp add: rhe_of_int)
next
  case False
  assume "y \<le> of_int k"
  with False have "y < of_int k" by simp
  then have "\<lfloor>y\<rfloor> < k" by (simp add: floor_less_iff)
  then show ?thesis by (simp add: round_half_even_def Let_def)
qed

lemma rhe_above_half: "of_int k + 1 / 2 < y \<Longrightarrow> k + 1 \<le> round_half_even y"
proof (cases "of_int (k + 1) \<le> y")
  case True
  then show ?thesis by (rule rhe_ge)
next
  case False
  assume h: "of_int k + 1 / 2 < y"
  from False h have "\<lfloor>y\<rfloor> = k" by (intro floor_unique) simp_all
  with h show ?thesis by (simp add: round_half_even_def Let_def)
qed

lemma rhe_below_half: "y < of_int k + 1 / 2 \<Longrightarrow> round_half_even y \<le> k"
proof (cases "y \<le> of_int k")
  case True
  then show ?thesis by (rule rhe_le)
next
  case False
  assume h: "y < of_int k + 1 / 2"
  from False h have "\<lfloor>y\<rfloor> = k" by (intro floor_unique) simp_all
  with h show ?thesis by (simp add: round_half_even_def Let_def)
qed

lemma rhe_tie: "round_half_even (of_int k + 1 / 2) = (if even k then k else k + 1)"
proof -
  have "\<lfloor>of_int k + (1 / 2 :: real)\<rfloor> = k" by (intro floor_unique) simp_all
  then show ?thesis by (simp add: round_half_even_def Let_def)
qed

section \<open>The numbers of a format\<close>

text \<open>The quantum of a binade is the spacing of the numbers of the format in it; the
  numbers of the format are the multiples of the quantum of the lowest binade that a
  significand of \<open>precision\<close> bits can hold.\<close>

lemma quantum_pos: "0 < quantum f e"
  by (simp add: quantum_def)

lemma quantum_Suc: "quantum f (e + 1) = 2 * quantum f e"
  using power_int_add_1 [of "2::real" "e - int (precision f) + 1"]
  by (simp add: quantum_def algebra_simps)

lemma quantum_top: "quantum f e * 2 ^ precision f = 2 powi (e + 1)"
proof -
  have A: "(2::real) powi ((e - int (precision f) + 1) + int (precision f))
             = 2 powi (e - int (precision f) + 1) * 2 powi (int (precision f))"
    by (rule power_int_add) simp
  have B: "(e - int (precision f) + 1) + int (precision f) = e + 1" by simp
  show ?thesis
    unfolding quantum_def using A unfolding B by simp
qed

lemma quantum_bot: "0 < precision f \<Longrightarrow> quantum f e * 2 ^ (precision f - 1) = 2 powi e"
proof -
  assume p: "0 < precision f"
  have A: "(2::real) powi ((e - int (precision f) + 1) + int (precision f - 1))
             = 2 powi (e - int (precision f) + 1) * 2 powi (int (precision f - 1))"
    by (rule power_int_add) simp
  have B: "(e - int (precision f) + 1) + int (precision f - 1) = e" using p by simp
  show ?thesis
    unfolding quantum_def using A unfolding B by simp
qed

lemma quantum_ratio: "e \<le> e' \<Longrightarrow> quantum f e' = of_int (2 ^ nat (e' - e)) * quantum f e"
proof -
  assume le: "e \<le> e'"
  have A: "(2::real) powi (int (nat (e' - e)) + (e - int (precision f) + 1))
             = 2 powi (int (nat (e' - e))) * 2 powi (e - int (precision f) + 1)"
    by (rule power_int_add) simp
  have B: "int (nat (e' - e)) + (e - int (precision f) + 1) = e' - int (precision f) + 1"
    using le by simp
  have C: "(2::real) powi (int (nat (e' - e))) = 2 ^ nat (e' - e)"
    by (rule power_int_of_nat)
  show ?thesis
    unfolding quantum_def using A unfolding B C by simp
qed

lemma format_ok_range: "format_ok f \<Longrightarrow> emin f \<le> 0 \<and> 0 \<le> emax f \<and> 0 < precision f"
  by (auto simp add: format_ok_def)

lemma round_fin_pos:
  "0 < y \<Longrightarrow> round_fin f y =
     (if 2 powi (emax f + 1) \<le> of_int (round_half_even (y / quantum f (binade f y))) * quantum f (binade f y)
      then PInf
      else Fin (of_int (round_half_even (y / quantum f (binade f y))) * quantum f (binade f y)))"
  by (simp add: round_fin_def quantum_def Let_def fp_inf_def)

lemma round_in_binade:
  assumes "format_ok f" "emin f \<le> e" "e < emax f" "2 powi e \<le> y" "y < 2 powi (e + 1)"
  shows "round_fin f y = Fin (of_int (round_half_even (y / quantum f e)) * quantum f e)"
proof -
  note r = format_ok_range [OF assms(1)]
  have "(0::real) < 2 powi e" by simp
  then have y: "0 < y" using assms(4) by linarith
  have b: "binade f y = e"
    using r assms by (intro binade_eqI) simp_all
  have "y / quantum f e < 2 ^ precision f"
    using assms(5) quantum_top [of f e] quantum_pos [of f e] by (simp add: pos_divide_less_eq mult.commute)
  then have "y / quantum f e \<le> of_int (2 ^ precision f)" by simp
  then have "round_half_even (y / quantum f e) \<le> 2 ^ precision f" by (rule rhe_le)
  then have "(of_int (round_half_even (y / quantum f e)) :: real) \<le> 2 ^ precision f"
    by (metis of_int_le_iff of_int_numeral of_int_power)
  then have "of_int (round_half_even (y / quantum f e)) * quantum f e \<le> 2 ^ precision f * quantum f e"
    using quantum_pos [of f e] by (simp add: mult_right_mono)
  also have "\<dots> = 2 powi (e + 1)" using quantum_top [of f e] by (simp add: mult.commute)
  also have "\<dots> < 2 powi (emax f + 1)"
    using assms(3) by (intro power_int_strict_increasing) simp_all
  finally show ?thesis
    by (simp add: round_fin_pos [OF y] b)
qed

lemma round_subnormal:
  assumes "format_ok f" "0 < y" "y < 2 powi (emin f + 1)"
  shows "round_fin f y = Fin (of_int (round_half_even (y / quantum f (emin f))) * quantum f (emin f))"
proof -
  note r = format_ok_range [OF assms(1)]
  have b: "binade f y = emin f"
    using r assms by (intro binade_subnormal) simp_all
  have "y / quantum f (emin f) < 2 ^ precision f"
    using assms(3) quantum_top [of f "emin f"] quantum_pos [of f "emin f"]
    by (simp add: pos_divide_less_eq mult.commute)
  then have "y / quantum f (emin f) \<le> of_int (2 ^ precision f)" by simp
  then have "round_half_even (y / quantum f (emin f)) \<le> 2 ^ precision f" by (rule rhe_le)
  then have "(of_int (round_half_even (y / quantum f (emin f))) :: real) \<le> 2 ^ precision f"
    by (metis of_int_le_iff of_int_numeral of_int_power)
  then have "of_int (round_half_even (y / quantum f (emin f))) * quantum f (emin f)
               \<le> 2 ^ precision f * quantum f (emin f)"
    using quantum_pos [of f "emin f"] by (simp add: mult_right_mono)
  also have "\<dots> = 2 powi (emin f + 1)" using quantum_top [of f "emin f"] by (simp add: mult.commute)
  also have "\<dots> < 2 powi (emax f + 1)"
    using r assms(1) by (intro power_int_strict_increasing) (simp_all add: format_ok_def)
  finally show ?thesis
    by (simp add: round_fin_pos [OF assms(2)] b)
qed

section \<open>Rounding fixes the numbers of a format and is monotone at them\<close>

lemma of_int_pow2_le: "(k::int) \<le> 2 ^ n \<Longrightarrow> (of_int k :: real) \<le> 2 ^ n"
  by (metis of_int_le_iff of_int_numeral of_int_power)

lemma of_int_pow2_ge: "2 ^ n \<le> (k::int) \<Longrightarrow> (2 ^ n :: real) \<le> of_int k"
  by (metis of_int_le_iff of_int_numeral of_int_power)

lemma of_int_pow2_less: "(k::int) < 2 ^ n \<Longrightarrow> (of_int k :: real) < 2 ^ n"
  by (metis of_int_less_iff of_int_numeral of_int_power)

lemma pow2_less_cancel: "(2::real) powi m < 2 powi n \<Longrightarrow> m < n"
proof (rule ccontr)
  assume h: "(2::real) powi m < 2 powi n" and "\<not> m < n"
  then have "n \<le> m" by simp
  then have "(2::real) powi n \<le> 2 powi m" by (intro power_int_increasing) simp_all
  with h show False by simp
qed

lemma pow2_le_cancel: "(2::real) powi m \<le> 2 powi n \<Longrightarrow> m \<le> n"
proof (rule ccontr)
  assume h: "(2::real) powi m \<le> 2 powi n" and "\<not> m \<le> n"
  then have "n < m" by simp
  then have "(2::real) powi n < 2 powi m" by (intro power_int_strict_increasing) simp_all
  with h show False by simp
qed

lemma float_less_top:
  assumes "\<bar>k\<bar> < 2 ^ precision f"
  shows "of_int k * quantum f e < 2 powi (e + 1)"
proof -
  have "k < 2 ^ precision f" using assms by simp
  then have "(of_int k :: real) < 2 ^ precision f" by (rule of_int_pow2_less)
  then have "of_int k * quantum f e < 2 ^ precision f * quantum f e"
    using quantum_pos [of f e] by simp
  then show ?thesis using quantum_top [of f e] by (simp add: mult.commute)
qed

lemma round_fin_cases:
  assumes "0 < y"
  obtains "round_fin f y = PInf"
  | r where "round_fin f y = Fin r" "r = of_int (round_half_even (y / quantum f (binade f y))) * quantum f (binade f y)"
      "0 \<le> r" "r < 2 powi (emax f + 1)"
proof -
  define r where "r = of_int (round_half_even (y / quantum f (binade f y))) * quantum f (binade f y)"
  have "0 \<le> y / quantum f (binade f y)"
    using assms quantum_pos [of f "binade f y"] by simp
  then have "of_int 0 \<le> y / quantum f (binade f y)" by simp
  then have "0 \<le> round_half_even (y / quantum f (binade f y))" by (rule rhe_ge)
  then have nn: "0 \<le> r"
    unfolding r_def using quantum_pos [of f "binade f y"] by simp
  show thesis
  proof (cases "2 powi (emax f + 1) \<le> r")
    case True
    then have "round_fin f y = PInf"
      using round_fin_pos [OF assms, of f] by (simp add: r_def)
    then show ?thesis by (rule that(1))
  next
    case False
    then have "round_fin f y = Fin r"
      using round_fin_pos [OF assms, of f] by (simp add: r_def)
    moreover have "r < 2 powi (emax f + 1)" using False by simp
    ultimately show ?thesis using r_def nn by (intro that(2))
  qed
qed

lemma float_binade_le:
  assumes "format_ok f" "0 < y" "y \<le> of_int k * quantum f e" "\<bar>k\<bar> < 2 ^ precision f" "emin f \<le> e"
  shows "binade f y \<le> e"
proof (rule ccontr)
  note r = format_ok_range [OF assms(1)]
  note s = binade_spec [OF r [THEN conjunct1] r [THEN conjunct2, THEN conjunct1] assms(2)]
  assume "\<not> binade f y \<le> e"
  then have l: "e < binade f y" by simp
  then have "emin f < binade f y" using assms(5) by simp
  then have "2 powi (binade f y) \<le> y" by (rule s(3))
  moreover have "(2::real) powi (e + 1) \<le> 2 powi (binade f y)"
    using l by (intro power_int_increasing) simp_all
  moreover have "of_int k * quantum f e < 2 powi (e + 1)"
    using assms(4) by (rule float_less_top)
  ultimately show False using assms(3) by simp
qed

lemma round_le_float:
  assumes "format_ok f" "0 < y" "y \<le> v" "is_float f v"
  obtains r where "round_fin f y = Fin r" "0 \<le> r" "r \<le> v"
proof -
  from assms(4) obtain k e where ke: "emin f \<le> e" "e \<le> emax f" "\<bar>k\<bar> < 2 ^ precision f"
    "v = of_int k * quantum f e"
    by (auto simp add: is_float_def)
  define b where "b = binade f y"
  have be: "b \<le> e"
    unfolding b_def using assms(1,2) assms(3) [unfolded ke(4)] ke(3,1) by (rule float_binade_le)
  define K where "K = k * 2 ^ nat (e - b)"
  have vK: "v = of_int K * quantum f b"
    unfolding ke(4) K_def using quantum_ratio [OF be, of f] by simp
  have "y / quantum f b \<le> of_int K"
    using assms(3) vK quantum_pos [of f b] by (simp add: pos_divide_le_eq)
  then have "round_half_even (y / quantum f b) \<le> K" by (rule rhe_le)
  then have le: "of_int (round_half_even (y / quantum f b)) * quantum f b \<le> v"
    unfolding vK using quantum_pos [of f b] by simp
  have "v < 2 powi (e + 1)" unfolding ke(4) using ke(3) by (rule float_less_top)
  also have "\<dots> \<le> 2 powi (emax f + 1)"
    using ke(2) by (intro power_int_increasing) simp_all
  finally have top: "v < 2 powi (emax f + 1)" .
  show thesis
  proof (rule round_fin_cases [OF assms(2), of f])
    assume "round_fin f y = PInf"
    then have "2 powi (emax f + 1) \<le> of_int (round_half_even (y / quantum f b)) * quantum f b"
      using round_fin_pos [OF assms(2), of f] unfolding b_def by (simp split: if_splits)
    with le top show thesis by simp
  next
    fix r
    assume "round_fin f y = Fin r"
      "r = of_int (round_half_even (y / quantum f (binade f y))) * quantum f (binade f y)"
      "0 \<le> r" "r < 2 powi (emax f + 1)"
    then show thesis using le that unfolding b_def by simp
  qed
qed

lemma round_ge_float:
  assumes "format_ok f" "0 < v" "v \<le> y" "is_float f v" "round_fin f y = Fin r"
  shows "v \<le> r"
proof -
  note rg = format_ok_range [OF assms(1)]
  have y: "0 < y" using assms(2,3) by simp
  note s = binade_spec [OF rg [THEN conjunct1] rg [THEN conjunct2, THEN conjunct1] y]
  from assms(4) obtain k e where ke: "emin f \<le> e" "e \<le> emax f" "\<bar>k\<bar> < 2 ^ precision f"
    "v = of_int k * quantum f e"
    by (auto simp add: is_float_def)
  define b where "b = binade f y"
  have r: "r = of_int (round_half_even (y / quantum f b)) * quantum f b"
    using assms(5) round_fin_pos [OF y, of f] unfolding b_def by (simp split: if_splits)
  show ?thesis
  proof (cases "b \<le> e")
    case True
    define K where "K = k * 2 ^ nat (e - b)"
    have vK: "v = of_int K * quantum f b"
      unfolding ke(4) K_def using quantum_ratio [OF True, of f] by simp
    have "of_int K \<le> y / quantum f b"
      using assms(3) vK quantum_pos [of f b] by (simp add: pos_le_divide_eq)
    then have "K \<le> round_half_even (y / quantum f b)" by (rule rhe_ge)
    then show ?thesis
      unfolding vK r using quantum_pos [of f b] by simp
  next
    case False
    then have l: "e < b" by simp
    then have "emin f < binade f y" using ke(1) unfolding b_def by simp
    then have "2 powi b \<le> y" unfolding b_def by (rule s(3))
    then have "quantum f b * 2 ^ (precision f - 1) \<le> y"
      using quantum_bot [of f b] rg by simp
    then have "of_int (2 ^ (precision f - 1)) \<le> y / quantum f b"
      using quantum_pos [of f b] by (simp add: pos_le_divide_eq mult.commute)
    then have "2 ^ (precision f - 1) \<le> round_half_even (y / quantum f b)" by (rule rhe_ge)
    then have "(2 ^ (precision f - 1) :: real) \<le> of_int (round_half_even (y / quantum f b))"
      by (rule of_int_pow2_ge)
    then have "2 ^ (precision f - 1) * quantum f b \<le> r"
      unfolding r using quantum_pos [of f b] by simp
    then have "2 powi b \<le> r"
      using quantum_bot [of f b] rg by (simp add: mult.commute)
    moreover have "(2::real) powi (e + 1) \<le> 2 powi b"
      using l by (intro power_int_increasing) simp_all
    moreover have "v < 2 powi (e + 1)" unfolding ke(4) using ke(3) by (rule float_less_top)
    ultimately show ?thesis by simp
  qed
qed

lemma is_float_zero: "format_ok f \<Longrightarrow> is_float f 0"
  unfolding is_float_def
  by (rule exI [of _ 0], rule exI [of _ 0]) (simp add: format_ok_def)

lemma is_float_grid:
  assumes "emin f \<le> e" "e \<le> emax f" "0 \<le> K" "K < 2 ^ precision f"
  shows "is_float f (of_int K * quantum f e)"
  unfolding is_float_def using assms by (intro exI [of _ K] exI [of _ e]) simp

lemma is_float_pow2:
  assumes "format_ok f" "emin f \<le> e" "e \<le> emax f"
  shows "is_float f (2 powi e)"
proof -
  note rg = format_ok_range [OF assms(1)]
  have "(2::int) ^ (precision f - 1) < 2 ^ precision f"
    using rg by (intro power_strict_increasing) simp_all
  then have "is_float f (of_int (2 ^ (precision f - 1)) * quantum f e)"
    using assms by (intro is_float_grid) simp_all
  then show ?thesis using quantum_bot [of f e] rg by (simp add: mult.commute)
qed

lemma round_is_float:
  assumes "format_ok f" "0 < y" "round_fin f y = Fin r"
  shows "is_float f r \<and> 0 \<le> r"
proof -
  note rg = format_ok_range [OF assms(1)]
  note s = binade_spec [OF rg [THEN conjunct1] rg [THEN conjunct2, THEN conjunct1] assms(2)]
  define b where "b = binade f y"
  define K where "K = round_half_even (y / quantum f b)"
  have r: "r = of_int K * quantum f b" and top: "r < 2 powi (emax f + 1)"
    using assms(3) round_fin_pos [OF assms(2), of f] unfolding b_def K_def
    by (simp_all split: if_splits)
  have "of_int 0 \<le> y / quantum f b"
    using assms(2) quantum_pos [of f b] by simp
  then have K0: "0 \<le> K" unfolding K_def by (rule rhe_ge)
  then have r0: "0 \<le> r" unfolding r using quantum_pos [of f b] by simp
  have bmax: "b \<le> emax f"
  proof (rule ccontr)
    assume "\<not> b \<le> emax f"
    then have l: "emax f < b" by simp
    then have "emin f < binade f y" using rg unfolding b_def by simp
    then have "2 powi b \<le> y" unfolding b_def by (rule s(3))
    then have "quantum f b * 2 ^ (precision f - 1) \<le> y"
      using quantum_bot [of f b] rg by simp
    then have "of_int (2 ^ (precision f - 1)) \<le> y / quantum f b"
      using quantum_pos [of f b] by (simp add: pos_le_divide_eq mult.commute)
    then have "2 ^ (precision f - 1) \<le> K" unfolding K_def by (rule rhe_ge)
    then have "(2 ^ (precision f - 1) :: real) \<le> of_int K"
      by (rule of_int_pow2_ge)
    then have "2 ^ (precision f - 1) * quantum f b \<le> r"
      unfolding r using quantum_pos [of f b] by simp
    then have "2 powi b \<le> r"
      using quantum_bot [of f b] rg by (simp add: mult.commute)
    moreover have "(2::real) powi (emax f + 1) \<le> 2 powi b"
      using l by (intro power_int_increasing) simp_all
    ultimately show False using top by simp
  qed
  then have "y < 2 powi (b + 1)" unfolding b_def by (rule s(4))
  then have "y / quantum f b < 2 ^ precision f"
    using quantum_top [of f b] quantum_pos [of f b] by (simp add: pos_divide_less_eq mult.commute)
  then have "y / quantum f b \<le> of_int (2 ^ precision f)" by simp
  then have Kle: "K \<le> 2 ^ precision f" unfolding K_def by (rule rhe_le)
  have "is_float f r"
  proof (cases "K < 2 ^ precision f")
    case True
    show ?thesis unfolding r using s(1) bmax K0 True unfolding b_def [symmetric]
      by (intro is_float_grid) simp_all
  next
    case False
    with Kle have K: "K = 2 ^ precision f" by simp
    have r': "r = 2 powi (b + 1)"
      unfolding r K using quantum_top [of f b] by (simp add: mult.commute)
    have "b + 1 \<le> emax f"
    proof (rule ccontr)
      assume "\<not> b + 1 \<le> emax f"
      with bmax have "b = emax f" by simp
      with r' top show False by simp
    qed
    moreover have "emin f \<le> b + 1" using s(1) unfolding b_def by simp
    ultimately show ?thesis unfolding r' using assms(1) by (intro is_float_pow2) simp_all
  qed
  with r0 show ?thesis by simp
qed

lemma float_round_id:
  assumes "format_ok f" "is_float f v" "0 < v"
  shows "round_fin f v = Fin v"
proof -
  obtain r where r: "round_fin f v = Fin r" "r \<le> v"
    using round_le_float [OF assms(1,3) order_refl assms(2)] by blast
  have "v \<le> r" using assms(1,3) order_refl assms(2) r(1) by (rule round_ge_float)
  with r show ?thesis by simp
qed

lemma is_float_double:
  assumes "is_float f v" "0 < v" "2 * v < 2 powi (emax f + 1)"
  shows "is_float f (2 * v)"
proof -
  from assms(1) obtain k e where ke: "emin f \<le> e" "e \<le> emax f" "\<bar>k\<bar> < 2 ^ precision f"
    "v = of_int k * quantum f e"
    by (auto simp add: is_float_def)
  have k0: "0 < k" using assms(2) quantum_pos [of f e] unfolding ke(4)
    by (simp add: zero_less_mult_iff)
  show ?thesis
  proof (cases "e < emax f")
    case True
    have "2 * v = of_int k * quantum f (e + 1)"
      unfolding ke(4) quantum_Suc by simp
    moreover have "is_float f (of_int k * quantum f (e + 1))"
      using ke True k0 by (intro is_float_grid) simp_all
    ultimately show ?thesis by simp
  next
    case False
    with ke(2) have e: "e = emax f" by simp
    have "of_int (2 * k) * quantum f e = 2 * v" unfolding ke(4) by simp
    also have "\<dots> < 2 powi (e + 1)" using assms(3) unfolding e .
    also have "\<dots> = 2 ^ precision f * quantum f e"
      using quantum_top [of f e] by (simp add: mult.commute)
    finally have "of_int (2 * k) * quantum f e < 2 ^ precision f * quantum f e" .
    then have "(of_int (2 * k) :: real) < 2 ^ precision f"
      using quantum_pos [of f e] by simp
    then have "2 * k < 2 ^ precision f"
      by (metis of_int_less_iff of_int_numeral of_int_power)
    then have "is_float f (of_int (2 * k) * quantum f e)"
      using ke k0 by (intro is_float_grid) simp_all
    moreover have "2 * v = of_int (2 * k) * quantum f e" unfolding ke(4) by simp
    ultimately show ?thesis by (simp only:)
  qed
qed

lemma is_float_half:
  assumes "is_float f v" "2 powi (emin f + 1) \<le> v"
  shows "is_float f (v / 2)"
proof -
  from assms(1) obtain k e where ke: "emin f \<le> e" "e \<le> emax f" "\<bar>k\<bar> < 2 ^ precision f"
    "v = of_int k * quantum f e"
    by (auto simp add: is_float_def)
  have "v < 2 powi (e + 1)" unfolding ke(4) using ke(3) by (rule float_less_top)
  with assms(2) have "(2::real) powi (emin f + 1) < 2 powi (e + 1)" by simp
  then have "emin f + 1 < e + 1"
    by (rule pow2_less_cancel)
  then have l: "emin f \<le> e - 1" by simp
  have "quantum f e = 2 * quantum f (e - 1)"
    using quantum_Suc [of f "e - 1"] by simp
  then have "v / 2 = of_int k * quantum f (e - 1)" unfolding ke(4) by simp
  then show ?thesis
    unfolding is_float_def using ke l by (intro exI [of _ k] exI [of _ "e - 1"]) simp
qed

lemma float_on_grid:
  assumes "is_float f v" "2 powi e \<le> v" "0 < precision f"
  obtains K where "v = of_int K * quantum f e"
proof -
  from assms(1) obtain k b where kb: "\<bar>k\<bar> < 2 ^ precision f" "v = of_int k * quantum f b"
    by (auto simp add: is_float_def)
  have "v < 2 powi (b + 1)" unfolding kb(2) using kb(1) by (rule float_less_top)
  with assms(2) have "(2::real) powi e < 2 powi (b + 1)" by simp
  then have "e < b + 1"
    by (rule pow2_less_cancel)
  then have le: "e \<le> b" by simp
  have "v = of_int (k * 2 ^ nat (b - e)) * quantum f e"
    unfolding kb(2) using quantum_ratio [OF le, of f] by simp
  then show thesis by (rule that)
qed

section \<open>Rounding next to a number of a format\<close>

text \<open>A normalised number of the binade \<open>e\<close> is \<open>k * quantum f e\<close> with
  \<open>2^(p - 1) \<le> k < 2^p\<close>; a result strictly above the midpoint to the next number rounds
  up, one strictly below rounds down, and the midpoint goes to the even significand.\<close>

lemma pow2_le_pos: "(2::int) ^ n \<le> k \<Longrightarrow> 0 < k"
proof -
  assume "(2::int) ^ n \<le> k"
  moreover have "(0::int) < 2 ^ n" by simp
  ultimately show ?thesis by linarith
qed

lemma normal_bounds:
  assumes "0 < precision f" "2 ^ (precision f - 1) \<le> k" "k < 2 ^ precision f"
  shows "2 powi e \<le> of_int k * quantum f e" "of_int k * quantum f e < 2 powi (e + 1)"
    "of_int (k + 1) * quantum f e \<le> 2 powi (e + 1)"
proof -
  have "(2 ^ (precision f - 1) :: real) \<le> of_int k" using assms(2) by (rule of_int_pow2_ge)
  then have "2 ^ (precision f - 1) * quantum f e \<le> of_int k * quantum f e"
    using quantum_pos [of f e] by simp
  then show "2 powi e \<le> of_int k * quantum f e"
    using quantum_bot [OF assms(1), of e] by (simp add: mult.commute)
  have "\<bar>k\<bar> < 2 ^ precision f" using assms(3) pow2_le_pos [OF assms(2)] by simp
  then show "of_int k * quantum f e < 2 powi (e + 1)" by (rule float_less_top)
  have "k + 1 \<le> 2 ^ precision f" using assms(3) by simp
  then have "(of_int (k + 1) :: real) \<le> 2 ^ precision f" by (rule of_int_pow2_le)
  then have "of_int (k + 1) * quantum f e \<le> 2 ^ precision f * quantum f e"
    using quantum_pos [of f e] by (simp only: mult_le_cancel_right_pos)
  then show "of_int (k + 1) * quantum f e \<le> 2 powi (e + 1)"
    using quantum_top [of f e] by (simp add: mult.commute)
qed

lemma next_is_float:
  assumes "format_ok f" "emin f \<le> e" "e < emax f"
    "2 ^ (precision f - 1) \<le> k" "k < 2 ^ precision f"
  shows "is_float f (of_int (k + 1) * quantum f e)"
proof (cases "k + 1 < 2 ^ precision f")
  case True
  then show ?thesis using assms pow2_le_pos [OF assms(4)] by (intro is_float_grid) simp_all
next
  case False
  with assms(5) have k: "k + 1 = 2 ^ precision f" by simp
  have "of_int (k + 1) * quantum f e = 2 powi (e + 1)"
    unfolding k using quantum_top [of f e] by (simp add: mult.commute)
  moreover have "is_float f (2 powi (e + 1))"
    using assms by (intro is_float_pow2) simp_all
  ultimately show ?thesis by simp
qed

lemma round_above_half:
  assumes "format_ok f" "emin f \<le> e" "e < emax f"
    "2 ^ (precision f - 1) \<le> k" "k < 2 ^ precision f"
    "of_int k * quantum f e + quantum f e / 2 < y" "round_fin f y = Fin r"
  shows "of_int (k + 1) * quantum f e \<le> r"
proof (cases "of_int (k + 1) * quantum f e \<le> y")
  case True
  have "0 < k + 1" using pow2_le_pos [OF assms(4)] by simp
  then have "(0::real) < of_int (k + 1)" by (simp only: of_int_0_less_iff)
  then have pos: "0 < of_int (k + 1) * quantum f e"
    using quantum_pos [of f e] by (rule mult_pos_pos)
  have fl: "is_float f (of_int (k + 1) * quantum f e)"
    using assms(1-5) by (rule next_is_float)
  show ?thesis
    using assms(1) pos True fl assms(7) by (rule round_ge_float)
next
  case False
  note rg = format_ok_range [OF assms(1)]
  note nb = normal_bounds [OF rg [THEN conjunct2, THEN conjunct2] assms(4,5), of e]
  have lo: "2 powi e \<le> y" using nb(1) assms(6) quantum_pos [of f e] by linarith
  have hi: "y < 2 powi (e + 1)" using False nb(3) by linarith
  have r: "r = of_int (round_half_even (y / quantum f e)) * quantum f e"
    using round_in_binade [OF assms(1,2,3) lo hi] assms(7) by simp
  have "(of_int k + 1 / 2) * quantum f e = of_int k * quantum f e + quantum f e / 2"
    by (simp add: distrib_right)
  then have "(of_int k + 1 / 2) * quantum f e < y"
    using assms(6) by linarith
  then have "of_int k + 1 / 2 < y / quantum f e"
    using quantum_pos [of f e] by (simp only: pos_less_divide_eq)
  then have "k + 1 \<le> round_half_even (y / quantum f e)" by (rule rhe_above_half)
  then have "(of_int (k + 1) :: real) \<le> of_int (round_half_even (y / quantum f e))"
    by (simp only: of_int_le_iff)
  then show ?thesis unfolding r using quantum_pos [of f e]
    by (simp only: mult_le_cancel_right_pos)
qed

lemma round_below_half:
  assumes "format_ok f" "emin f \<le> e" "e < emax f"
    "2 ^ (precision f - 1) \<le> k" "k < 2 ^ precision f"
    "0 < y" "y < of_int k * quantum f e + quantum f e / 2"
  obtains r where "round_fin f y = Fin r" "0 \<le> r" "r \<le> of_int k * quantum f e"
proof (cases "y \<le> of_int k * quantum f e")
  case True
  have "is_float f (of_int k * quantum f e)"
    using assms pow2_le_pos [OF assms(4)] by (intro is_float_grid) simp_all
  then show ?thesis
    using round_le_float [OF assms(1,6) True] that by blast
next
  case False
  note rg = format_ok_range [OF assms(1)]
  note nb = normal_bounds [OF rg [THEN conjunct2, THEN conjunct2] assms(4,5), of e]
  have lo: "2 powi e \<le> y" using nb(1) False by simp
  have "of_int k * quantum f e + quantum f e / 2 < of_int (k + 1) * quantum f e"
    using quantum_pos [of f e] by (simp add: algebra_simps)
  then have hi: "y < 2 powi (e + 1)" using assms(7) nb(3) by simp
  have r: "round_fin f y = Fin (of_int (round_half_even (y / quantum f e)) * quantum f e)"
    using round_in_binade [OF assms(1,2,3) lo hi] by simp
  have "y / quantum f e < of_int k + 1 / 2"
    using assms(7) quantum_pos [of f e] by (simp add: pos_divide_less_eq algebra_simps)
  then have "round_half_even (y / quantum f e) \<le> k" by (rule rhe_below_half)
  then have le: "of_int (round_half_even (y / quantum f e)) * quantum f e \<le> of_int k * quantum f e"
    using quantum_pos [of f e] by simp
  have "of_int k \<le> y / quantum f e"
    using False quantum_pos [of f e] by (simp add: pos_le_divide_eq)
  then have "k \<le> round_half_even (y / quantum f e)" by (rule rhe_ge)
  then have "0 \<le> round_half_even (y / quantum f e)" using pow2_le_pos [OF assms(4)]
    by simp
  then have "0 \<le> of_int (round_half_even (y / quantum f e)) * quantum f e"
    using quantum_pos [of f e] by simp
  with r le show ?thesis by (intro that)
qed

lemma round_tie:
  assumes "format_ok f" "emin f \<le> e" "e < emax f"
    "2 ^ (precision f - 1) \<le> k" "k < 2 ^ precision f"
  shows "round_fin f (of_int k * quantum f e + quantum f e / 2)
           = Fin (of_int (if even k then k else k + 1) * quantum f e)"
proof -
  note rg = format_ok_range [OF assms(1)]
  note nb = normal_bounds [OF rg [THEN conjunct2, THEN conjunct2] assms(4,5), of e]
  let ?y = "of_int k * quantum f e + quantum f e / 2"
  have lo: "2 powi e \<le> ?y" using nb(1) quantum_pos [of f e] by simp
  have "?y < of_int (k + 1) * quantum f e"
    using quantum_pos [of f e] by (simp add: algebra_simps)
  then have hi: "?y < 2 powi (e + 1)" using nb(3) by simp
  have "?y / quantum f e = of_int k + 1 / 2"
    using quantum_pos [of f e] by (simp add: field_simps)
  then show ?thesis
    using round_in_binade [OF assms(1,2,3) lo hi] by (simp only: rhe_tie)
qed

section \<open>One step of the iteration\<close>

lemma newton_eval:
  assumes "p \<noteq> 0" "round_fin f (x / p) = Fin d" "round_fin f (p + d) = Fin a"
    "round_fin f (a / 2) = Fin q"
  shows "newton f x p = Fin q"
  using assms by (simp add: newton_def fin_arith)

lemma sqrt_unfold:
  "audio_utils_sqrt_unchecked (round_fp f) (Fin x) (Fin p)
     = (if fp_eq (newton f x p) (Fin p) then Some (newton f x p)
        else audio_utils_sqrt_unchecked (round_fp f) (Fin x) (newton f x p))"
  by (subst audio_utils_sqrt_unchecked.simps) (simp add: newton_def Let_def)

lemma float_min:
  assumes "is_float f x" "0 < x"
  shows "quantum f (emin f) \<le> x"
proof -
  from assms(1) obtain k e where ke: "emin f \<le> e" "x = of_int k * quantum f e"
    by (auto simp add: is_float_def)
  have "0 < (of_int k :: real)"
    using assms(2) quantum_pos [of f e] unfolding ke(2) by (simp add: zero_less_mult_iff)
  then have "1 \<le> k" by simp
  then have "(1::real) \<le> of_int k" by simp
  then have "1 * quantum f e \<le> of_int k * quantum f e"
    using quantum_pos [of f e] by (simp only: mult_le_cancel_right_pos)
  moreover have "quantum f (emin f) \<le> quantum f e"
    unfolding quantum_def using ke(1) by (intro power_int_increasing) simp_all
  ultimately show ?thesis unfolding ke(2) by simp
qed

lemma pow2_square: "(2::real) powi a * 2 powi a = 2 powi (2 * a)"
proof -
  have "(2::real) powi (a + a) = 2 powi a * 2 powi a" by (rule power_int_add) simp
  moreover have "a + a = 2 * a" by simp
  ultimately show ?thesis by simp
qed

lemma pow2_double: "2 * (2::real) powi a = 2 powi (a + 1)"
  using power_int_add_1 [of "2::real" a] by (simp add: mult.commute)

lemma high_lower:
  assumes "format_ok f" "is_float f x" "0 < x" "0 < p" "x \<le> p * p"
  shows "2 powi (emin f + 1) \<le> p"
proof (rule ccontr)
  assume "\<not> 2 powi (emin f + 1) \<le> p"
  then have lt: "p < 2 powi (emin f + 1)" by simp
  have "p * p < 2 powi (emin f + 1) * 2 powi (emin f + 1)"
    using lt assms(4) by (intro mult_strict_mono) simp_all
  also have "\<dots> = 2 powi (2 * (emin f + 1))" by (rule pow2_square)
  also have "\<dots> \<le> quantum f (emin f)"
    unfolding quantum_def using assms(1)
    by (intro power_int_increasing) (simp_all add: format_ok_def)
  also have "\<dots> \<le> x" using assms(2,3) by (rule float_min)
  finally show False using assms(5) by simp
qed

lemma halve_exact:
  assumes "format_ok f" "is_float f a" "2 powi (emin f + 1) \<le> a"
  shows "round_fin f (a / 2) = Fin (a / 2)" "is_float f (a / 2)" "0 < a / 2"
proof -
  show fl: "is_float f (a / 2)" using assms(2,3) by (rule is_float_half)
  have "(0::real) < 2 powi (emin f + 1)" by simp
  then show pos: "0 < a / 2" using assms(3) by linarith
  show "round_fin f (a / 2) = Fin (a / 2)" using assms(1) fl pos by (rule float_round_id)
qed

lemma high_step:
  assumes "format_ok f" "is_float f x" "0 < x" "is_float f p" "0 < p" "x \<le> p * p"
    "2 * p < 2 powi (emax f + 1)"
  obtains d q where "round_fin f (x / p) = Fin d" "round_fin f (p + d) = Fin (2 * q)"
    "newton f x p = Fin q" "0 \<le> d" "d \<le> p" "p \<le> 2 * q" "q \<le> p" "is_float f q" "0 < q"
proof -
  have lo: "2 powi (emin f + 1) \<le> p" using assms(1,2,3,5,6) by (rule high_lower)
  have xp: "0 < x / p" using assms(3,5) by simp
  have "x / p \<le> p" using assms(5,6) by (simp add: pos_divide_le_eq)
  then obtain d where d: "round_fin f (x / p) = Fin d" "0 \<le> d" "d \<le> p"
    using round_le_float [OF assms(1) xp _ assms(4)] by blast
  have f2p: "is_float f (2 * p)" using assms(4,5,7) by (rule is_float_double)
  have pd: "0 < p + d" using assms(5) d(2) by simp
  have "p + d \<le> 2 * p" using d(3) by simp
  then obtain a where a: "round_fin f (p + d) = Fin a" "a \<le> 2 * p"
    using round_le_float [OF assms(1) pd _ f2p] by blast
  have "p \<le> p + d" using d(2) by simp
  then have pa: "p \<le> a" by (rule round_ge_float [OF assms(1,5) _ assms(4) a(1)])
  have fa: "is_float f a" using round_is_float [OF assms(1) pd a(1)] by simp
  have la: "2 powi (emin f + 1) \<le> a" using lo pa by simp
  note h = halve_exact [OF assms(1) fa la]
  have n: "newton f x p = Fin (a / 2)"
    using assms(5) d(1) a(1) h(1) by (intro newton_eval) simp_all
  show thesis
  proof (rule that [of d "a / 2"])
    show "round_fin f (x / p) = Fin d" by (rule d(1))
    show "round_fin f (p + d) = Fin (2 * (a / 2))" using a(1) by simp
    show "newton f x p = Fin (a / 2)" by (rule n)
    show "0 \<le> d" "d \<le> p" by (rule d(2), rule d(3))
    show "p \<le> 2 * (a / 2)" using pa by simp
    show "a / 2 \<le> p" using a(2) by simp
    show "is_float f (a / 2)" by (rule h(2))
    show "0 < a / 2" by (rule h(3))
  qed
qed

lemma low_step:
  assumes "format_ok f" "is_float f x" "is_float f p" "1 \<le> p" "p * p < x"
    "x < 2 powi (emax f)"
  obtains q where "newton f x p = Fin q" "p \<le> q" "q \<le> x" "is_float f q"
proof -
  note rg = format_ok_range [OF assms(1)]
  have p: "0 < p" using assms(4) by simp
  have "0 < p * p" using p p by (rule mult_pos_pos)
  then have x: "0 < x" using assms(5) by linarith
  have xp: "0 < x / p" using x p by simp
  have "x * 1 \<le> x * p" using assms(4) x by (intro mult_left_mono) simp_all
  then have "x / p \<le> x" using p by (simp add: pos_divide_le_eq)
  then obtain d where d: "round_fin f (x / p) = Fin d" "d \<le> x"
    using round_le_float [OF assms(1) xp _ assms(2)] by blast
  have "p \<le> x / p" using assms(5) p by (simp add: pos_le_divide_eq)
  then have pd: "p \<le> d" by (rule round_ge_float [OF assms(1) p _ assms(3) d(1)])
  have x2: "2 * x < 2 powi (emax f + 1)" using assms(6) pow2_double [of "emax f"] by simp
  have f2x: "is_float f (2 * x)" using assms(2) x x2 by (rule is_float_double)
  have "2 * p < 2 powi (emax f + 1)" using pd d(2) x2 by simp
  then have f2p: "is_float f (2 * p)" by (rule is_float_double [OF assms(3) p])
  have s: "0 < p + d" using p pd by simp
  have "p + d \<le> 2 * x" using pd d(2) by simp
  then obtain a where a: "round_fin f (p + d) = Fin a" "a \<le> 2 * x"
    using round_le_float [OF assms(1) s _ f2x] by blast
  have p2: "0 < 2 * p" using p by simp
  have "2 * p \<le> p + d" using pd by simp
  then have pa: "2 * p \<le> a" by (rule round_ge_float [OF assms(1) p2 _ f2p a(1)])
  have fa: "is_float f a" using round_is_float [OF assms(1) s a(1)] by simp
  have "(2::real) powi (emin f + 1) \<le> 2 powi 1"
    using rg by (intro power_int_increasing) simp_all
  then have la: "2 powi (emin f + 1) \<le> a" using pa assms(4) by simp
  note h = halve_exact [OF assms(1) fa la]
  have n: "newton f x p = Fin (a / 2)"
    using p d(1) a(1) h(1) by (intro newton_eval) simp_all
  show thesis
  proof (rule that [of "a / 2"])
    show "newton f x p = Fin (a / 2)" by (rule n)
    show "p \<le> a / 2" using pa by simp
    show "a / 2 \<le> x" using a(2) by simp
    show "is_float f (a / 2)" by (rule h(2))
  qed
qed

section \<open>The error of a rounding\<close>

lemma rhe_lower: "y - 1 / 2 \<le> of_int (round_half_even y)"
proof -
  define n where "n = \<lfloor>y\<rfloor>"
  have n: "of_int n \<le> y" "y < of_int n + 1" unfolding n_def by linarith+
  consider "y - of_int n < 1 / 2" | "1 / 2 < y - of_int n" | "y - of_int n = 1 / 2" by linarith
  then show ?thesis
  proof cases
    case 1
    then have "round_half_even y = n" by (simp add: round_half_even_def Let_def n_def)
    with 1 show ?thesis by simp
  next
    case 2
    then have "round_half_even y = n + 1" by (simp add: round_half_even_def Let_def n_def)
    with n show ?thesis by simp
  next
    case 3
    then have "round_half_even y = n \<or> round_half_even y = n + 1"
      by (simp add: round_half_even_def Let_def n_def)
    with 3 show ?thesis by auto
  qed
qed

lemma round_err_lower:
  assumes "format_ok f" "emin f \<le> e" "0 < y" "y < 2 powi (e + 1)" "round_fin f y = Fin r"
  shows "y - quantum f e / 2 \<le> r"
proof -
  note rg = format_ok_range [OF assms(1)]
  note s = binade_spec [OF rg [THEN conjunct1] rg [THEN conjunct2, THEN conjunct1] assms(3)]
  define b where "b = binade f y"
  have be: "b \<le> e"
  proof (rule ccontr)
    assume "\<not> b \<le> e"
    then have l: "e < b" by simp
    then have "emin f < binade f y" using assms(2) unfolding b_def by simp
    then have "2 powi b \<le> y" unfolding b_def by (rule s(3))
    moreover have "(2::real) powi (e + 1) \<le> 2 powi b"
      using l by (intro power_int_increasing) simp_all
    ultimately show False using assms(4) by simp
  qed
  have r: "r = of_int (round_half_even (y / quantum f b)) * quantum f b"
    using assms(5) round_fin_pos [OF assms(3), of f] unfolding b_def by (simp split: if_splits)
  have "(y / quantum f b - 1 / 2) * quantum f b \<le> r"
    unfolding r using rhe_lower [of "y / quantum f b"] quantum_pos [of f b]
    by (simp only: mult_le_cancel_right_pos)
  moreover have "(y / quantum f b - 1 / 2) * quantum f b = y - quantum f b / 2"
    using quantum_pos [of f b] by (simp add: left_diff_distrib)
  moreover have "quantum f b \<le> quantum f e"
    unfolding quantum_def using be by (intro power_int_increasing) simp_all
  ultimately show ?thesis by linarith
qed

text \<open>Integer inequalities on significands, used where the iteration crosses the root.\<close>

lemma even_far:
  fixes X m D :: int
  assumes "2 * m * m + 3 * m \<le> 2 * X" "2 \<le> D"
  shows "(m + D) * (2 * (m + 1 - D) + 1) < 2 * X"
proof -
  have e: "(m + D) * (2 * (m + 1 - D) + 1) = 2 * m * m + 3 * m + D * (3 - 2 * D)"
    by (simp add: algebra_simps)
  have "D * (3 - 2 * D) < 0"
    using assms(2) by (intro mult_pos_neg) simp_all
  with e assms(1) show ?thesis by linarith
qed

lemma odd_any:
  fixes X m D :: int
  assumes "2 * m * m + m \<le> 2 * X" "1 \<le> D"
  shows "(m + D) * (2 * (m + 1 - D) - 1) < 2 * X"
proof -
  have e: "(m + D) * (2 * (m + 1 - D) - 1) = 2 * m * m + m + D * (1 - 2 * D)"
    by (simp add: algebra_simps)
  have "D * (1 - 2 * D) < 0"
    using assms(2) by (intro mult_pos_neg) simp_all
  with e assms(1) show ?thesis by linarith
qed

lemma even_near:
  fixes X m :: int
  assumes "2 * m * m + 3 * m \<le> 2 * X" "even m" "0 < m" "m < 2 ^ P" "2 ^ (P - 1) dvd X" "0 < P"
  shows "(m + 1) * (2 * m + 1) < 2 * X"
proof -
  from assms(2) obtain j where j: "m = 2 * j" by (elim evenE)
  have j0: "0 < j" using assms(3) j by simp
  have "X \<noteq> j * (4 * j + 3)"
  proof
    assume X: "X = j * (4 * j + 3)"
    have "coprime ((2::int) ^ (P - 1)) (4 * j + 3)"
    proof -
      have "coprime (2::int) (4 * j + 3)" unfolding coprime_left_2_iff_odd by simp
      then show ?thesis by (simp add: coprime_power_left_iff)
    qed
    then have "2 ^ (P - 1) dvd j"
      using assms(5) unfolding X by (simp add: coprime_dvd_mult_left_iff)
    then have "2 ^ (P - 1) \<le> j" using j0 by (rule zdvd_imp_le)
    then have "2 * 2 ^ (P - 1) \<le> m" unfolding j by simp
    moreover have "(2::int) * 2 ^ (P - 1) = 2 ^ P"
      using assms(6) by (metis power_minus_mult mult.commute)
    ultimately show False using assms(4) by simp
  qed
  moreover have "2 * m * m + 3 * m = 2 * (j * (4 * j + 3))" unfolding j by (simp add: algebra_simps)
  ultimately have "2 * m * m + 3 * m + 2 \<le> 2 * X" using assms(1) by linarith
  moreover have "(m + 1) * (2 * m + 1) = 2 * m * m + 3 * m + 1" by (simp add: algebra_simps)
  ultimately show ?thesis by linarith
qed

lemma boundary_gap:
  fixes X m D M k :: int
  assumes "m * m < X" "X = M * k" "M \<le> m" "m - M + 1 \<le> D" "0 < M"
    "X < (m + D) * (m + 1 - D)"
  shows False
proof -
  define i where "i = m - M"
  have i0: "0 \<le> i" using assms(3) by (simp add: i_def)
  have m: "m = M + i" by (simp add: i_def)
  have Di: "i + 1 \<le> D" using assms(4) by (simp add: i_def)
  have "M * (M + 2 * i) \<le> m * m"
  proof -
    have "m * m = M * (M + 2 * i) + i * i" unfolding m by (simp add: algebra_simps)
    moreover have "0 \<le> i * i" by simp
    ultimately show ?thesis by linarith
  qed
  then have "M * (M + 2 * i) < M * k" using assms(1,2) by simp
  then have "M + 2 * i < k" using assms(5) by (simp add: mult_less_cancel_left_pos)
  then have "M + 2 * i + 1 \<le> k" by simp
  then have "M * (M + 2 * i + 1) \<le> M * k" using assms(5) by (simp only: mult_le_cancel_left_pos)
  then have lower: "M * (M + 2 * i + 1) \<le> X" using assms(2) by simp
  have "(i + 1) * i \<le> D * (D - 1)"
    using Di i0 by (intro mult_mono) simp_all
  moreover have "(m + D) * (m + 1 - D) = m * m + m - D * (D - 1)" by (simp add: algebra_simps)
  moreover have "m * m + m - (i + 1) * i = M * (M + 2 * i + 1)" unfolding m by (simp add: algebra_simps)
  ultimately have "(m + D) * (m + 1 - D) \<le> M * (M + 2 * i + 1)" by linarith
  with lower assms(6) show False by linarith
qed

section \<open>The grid of an iterate below the root\<close>

lemma of_int_mult_less_cancel:
  fixes u :: real
  assumes "0 < u" "of_int a * u < of_int b * u"
  shows "a < b"
proof -
  have "(of_int a :: real) < of_int b" using assms by (simp only: mult_less_cancel_right_pos)
  then show ?thesis by (simp only: of_int_less_iff)
qed

lemma of_int_mult_le_cancel:
  fixes u :: real
  assumes "0 < u" "of_int a * u \<le> of_int b * u"
  shows "a \<le> b"
proof -
  have "(of_int a :: real) \<le> of_int b" using assms by (simp only: mult_le_cancel_right_pos)
  then show ?thesis by (simp only: of_int_le_iff)
qed

lemma square_less_imp_less:
  fixes q p :: real
  assumes "q * q < p * p" "0 < p" "0 < q"
  shows "q < p"
proof (rule ccontr)
  assume "\<not> q < p"
  then have "p \<le> q" by simp
  then have "p * p \<le> q * q" using assms(2) by (intro mult_mono) simp_all
  with assms(1) show False by simp
qed

lemma float_below_top:
  assumes "is_float f x"
  shows "x < 2 powi (emax f + 1)"
proof -
  from assms obtain k e where ke: "e \<le> emax f" "\<bar>k\<bar> < 2 ^ precision f" "x = of_int k * quantum f e"
    by (auto simp add: is_float_def)
  have "x < 2 powi (e + 1)" unfolding ke(3) using ke(2) by (rule float_less_top)
  also have "\<dots> \<le> 2 powi (emax f + 1)" using ke(1) by (intro power_int_increasing) simp_all
  finally show ?thesis .
qed

lemma grid_setup:
  assumes "format_ok f" "is_float f x" "is_float f q" "2 powi (emin f) \<le> q" "q * q < x"
  obtains e m X where "emin f \<le> e" "e + 2 \<le> emax f" "q = of_int m * quantum f e"
    "2 ^ (precision f - 1) \<le> m" "m < 2 ^ precision f"
    "x = of_int X * (quantum f e * quantum f e)" "2 ^ (precision f - 1) dvd X" "m * m < X"
proof -
  note rg = format_ok_range [OF assms(1)]
  have P: "0 < precision f" using rg by simp
  have "(0::real) < 2 powi (emin f)" by simp
  then have q0: "0 < q" using assms(4) by linarith
  note s = binade_spec [OF rg [THEN conjunct1] rg [THEN conjunct2, THEN conjunct1] q0]
  define e where "e = binade f q"
  define u where "u = quantum f e"
  have u: "0 < u" unfolding u_def by (rule quantum_pos)
  have lo: "2 powi e \<le> q"
  proof (cases "emin f < e")
    case True
    then show ?thesis unfolding e_def by (rule s(3))
  next
    case False
    with s(1) have "e = emin f" unfolding e_def by simp
    with assms(4) show ?thesis by simp
  qed
  have xtop: "x < 2 powi (emax f + 1)" using assms(2) by (rule float_below_top)
  have e2: "e + 2 \<le> emax f"
  proof (rule ccontr)
    assume "\<not> e + 2 \<le> emax f"
    then have "emax f - 1 \<le> e" by simp
    then have "(2::real) powi (emax f - 1) \<le> 2 powi e" by (intro power_int_increasing) simp_all
    then have l: "2 powi (emax f - 1) \<le> q" using lo by simp
    have "(2::real) powi (emax f - 1) * 2 powi (emax f - 1) \<le> q * q"
      using l q0 by (intro mult_mono) simp_all
    then have "2 powi (2 * (emax f - 1)) \<le> q * q" by (simp only: pow2_square)
    moreover have "(2::real) powi (emax f + 1) \<le> 2 powi (2 * (emax f - 1))"
      using assms(1) by (intro power_int_increasing) (simp_all add: format_ok_def)
    ultimately show False using assms(5) xtop by linarith
  qed
  then have "binade f q \<le> emax f" unfolding e_def by simp
  then have hi: "q < 2 powi (e + 1)" unfolding e_def by (rule s(4))
  obtain m where m: "q = of_int m * u"
    using float_on_grid [OF assms(3) lo P] unfolding u_def by blast
  have "of_int (2 ^ (precision f - 1)) * u \<le> of_int m * u"
    using lo quantum_bot [OF P, of e] unfolding m u_def by (simp add: mult.commute)
  then have m1: "2 ^ (precision f - 1) \<le> m" using u by (intro of_int_mult_le_cancel)
  have "of_int m * u < of_int (2 ^ precision f) * u"
    using hi quantum_top [of f e] unfolding m u_def by (simp add: mult.commute)
  then have m2: "m < 2 ^ precision f" using u by (intro of_int_mult_less_cancel)
  have "(2::real) powi e * 2 powi e \<le> q * q" using lo q0 by (intro mult_mono) simp_all
  then have "2 powi (2 * e) \<le> q * q" by (simp only: pow2_square)
  then have "2 powi (2 * e) \<le> x" using assms(5) by simp
  then obtain X' where X': "x = of_int X' * quantum f (2 * e)"
    using float_on_grid [OF assms(2) _ P] by blast
  have qq: "quantum f (2 * e) = 2 ^ (precision f - 1) * (u * u)"
  proof -
    define A where "A = 2 * (e - int (precision f) + 1)"
    define B where "B = int (precision f - 1)"
    define C where "C = 2 * e - int (precision f) + 1"
    have a: "u * u = 2 powi A"
      unfolding u_def quantum_def A_def by (rule pow2_square)
    have b: "(2::real) powi (B + A) = 2 powi B * 2 powi A"
      by (rule power_int_add) simp
    have c: "C = B + A" unfolding A_def B_def C_def using P by simp
    have d: "(2::real) powi B = 2 ^ (precision f - 1)"
      unfolding B_def by (rule power_int_of_nat)
    have "quantum f (2 * e) = 2 powi C" unfolding quantum_def C_def ..
    also have "\<dots> = 2 powi B * 2 powi A" unfolding c by (rule b)
    also have "\<dots> = 2 ^ (precision f - 1) * (u * u)" unfolding a d ..
    finally show ?thesis .
  qed
  define X where "X = X' * 2 ^ (precision f - 1)"
  have X: "x = of_int X * (u * u)" unfolding X' qq X_def by simp
  have dv: "2 ^ (precision f - 1) dvd X" unfolding X_def by simp
  have "of_int (m * m) * (u * u) < of_int X * (u * u)"
    using assms(5) unfolding m X by (simp add: mult_ac)
  then have mm: "m * m < X" using u by (intro of_int_mult_less_cancel [of "u * u"]) simp_all
  show thesis
    using that [of e m X] s(1) e2 m m1 m2 X dv mm unfolding e_def [symmetric] u_def by blast
qed

section \<open>An iterate below the root that follows one above it is a fixed point\<close>

lemma endgame_bound:
  assumes ok: "format_ok f"
    and e1: "emin f \<le> e" and e2: "e + 2 \<le> emax f"
    and q: "q = of_int m * quantum f e"
    and m1: "2 ^ (precision f - 1) \<le> m" and m2: "m < 2 ^ precision f"
    and x: "x = of_int X * (quantum f e * quantum f e)"
    and dv: "2 ^ (precision f - 1) dvd X" and mm: "m * m < X"
    and fp: "is_float f p" and p0: "0 < p" and hi: "x \<le> p * p"
    and rd: "round_fin f (x / p) = Fin d" and ra: "round_fin f (p + d) = Fin (2 * q)"
    and d0: "0 \<le> d"
  shows "if even m then 2 * X < 2 * m * m + 3 * m else 2 * X < 2 * m * m + m"
proof -
  note rg = format_ok_range [OF ok]
  have P: "0 < precision f" using rg by simp
  define u where "u = quantum f e"
  have u: "0 < u" unfolding u_def by (rule quantum_pos)
  have uu: "0 < u * u" using u by simp
  have qu: "q = of_int m * u" using q unfolding u_def .
  have xu: "x = of_int X * (u * u)" using x unfolding u_def .
  have q2: "quantum f (e + 1) = 2 * u" unfolding u_def by (rule quantum_Suc)
  have "(0::int) < 2 ^ (precision f - 1)" by simp
  then have mpos: "0 < m" using m1 by linarith
  have q0: "0 < q" unfolding qu using mpos u by simp
  have "(0::int) \<le> m * m" by simp
  then have Xpos: "0 < X" using mm by linarith
  have x0: "0 < x" unfolding xu using Xpos uu by simp
  have "of_int (m * m) * (u * u) < of_int X * (u * u)"
    using mm uu by (simp only: mult_less_cancel_right_pos of_int_less_iff)
  then have qq: "q * q < x" unfolding qu xu by (simp add: mult_ac)
  have "q * q < p * p" using qq hi by linarith
  then have qp: "q < p" using p0 q0 by (rule square_less_imp_less)
  have nb: "2 powi e \<le> of_int m * u" "of_int m * u < 2 powi (e + 1)"
    using normal_bounds [OF P m1 m2, of e] unfolding u_def by simp_all
  have "2 powi e \<le> p" using nb(1) qp unfolding qu by linarith
  then obtain n where pu: "p = of_int n * u"
    using float_on_grid [OF fp _ P] unfolding u_def by blast
  have "of_int m * u < of_int n * u" using qp unfolding qu pu .
  then have mn: "m < n" using u by (intro of_int_mult_less_cancel)
  have npos: "0 < n" using mn mpos by linarith
  define Dl where "Dl = n - m"
  define Ds where "Ds = m + 1 - Dl"
  have Dl: "1 \<le> Dl" "m + Dl = n" using mn unfolding Dl_def by simp_all
  have Dsm: "Ds \<le> m" unfolding Ds_def using Dl(1) by simp
  have Dsu: "of_int Ds * u = 2 * q + u - p"
    unfolding Ds_def Dl_def qu pu by (simp add: algebra_simps)
  have L1: "p + d \<le> 2 * q + u"
  proof (rule ccontr)
    assume "\<not> p + d \<le> 2 * q + u"
    then have "of_int m * quantum f (e + 1) + quantum f (e + 1) / 2 < p + d"
      unfolding q2 qu by simp
    from round_above_half [OF ok _ _ m1 m2 this ra]
    have "of_int (m + 1) * quantum f (e + 1) \<le> 2 * q" using e1 e2 by simp
    then have "2 * q + 2 * u \<le> 2 * q" unfolding q2 qu by (simp add: algebra_simps)
    then show False using u by simp
  qed
  have L1s: "p + d < 2 * q + u" if "odd m"
  proof (rule ccontr)
    assume "\<not> p + d < 2 * q + u"
    then have "p + d = 2 * q + u" using L1 by simp
    then have eq: "p + d = of_int m * quantum f (e + 1) + quantum f (e + 1) / 2"
      unfolding q2 qu by simp
    have "round_fin f (of_int m * quantum f (e + 1) + quantum f (e + 1) / 2)
        = Fin (of_int (if even m then m else m + 1) * quantum f (e + 1))"
      using e1 e2 by (intro round_tie [OF ok _ _ m1 m2]) simp_all
    then have "Fin (2 * q) = Fin (of_int (m + 1) * quantum f (e + 1))"
      using ra that unfolding eq by simp
    then have "2 * q = 2 * q + 2 * u" unfolding q2 qu by (simp add: algebra_simps)
    then show False using u by simp
  qed
  have dD: "d \<le> of_int Ds * u" unfolding Dsu using L1 by simp
  have nr: "(0::real) < of_int n" using npos by simp
  have xp: "x / p = of_int X * u / of_int n"
    unfolding xu pu using u nr by simp
  have conv: "of_int c * u / 2 < x / p" if "n * c < 2 * X" for c
  proof -
    have "(of_int (n * c) :: real) < of_int (2 * X)" using that by (simp only: of_int_less_iff)
    then have "of_int c * of_int n < 2 * (of_int X :: real)" by (simp add: mult.commute)
    then have "of_int c < 2 * (of_int X :: real) / of_int n"
      using nr by (simp only: pos_less_divide_eq)
    moreover have "0 < u / 2" using u by simp
    ultimately have "of_int c * (u / 2) < 2 * (of_int X :: real) / of_int n * (u / 2)"
      by (simp only: mult_less_cancel_right_pos)
    then show ?thesis unfolding xp by simp
  qed
  have conv2: "X < n * c" if "x / p < of_int c * u" for c
  proof -
    have "of_int X / of_int n * u < of_int c * u" using that unfolding xp by simp
    then have "(of_int X :: real) / of_int n < of_int c"
      using u by (simp only: mult_less_cancel_right_pos)
    then have "(of_int X :: real) < of_int c * of_int n"
      using nr by (simp only: pos_divide_less_eq)
    then have "(of_int X :: real) < of_int (n * c)" by (simp add: mult.commute)
    then show ?thesis by (simp only: of_int_less_iff)
  qed
  have xp0: "0 < x / p" using x0 p0 by simp
  have xplt: "x / p < 2 powi (e + 1)"
  proof (rule ccontr)
    assume "\<not> x / p < 2 powi (e + 1)"
    then have le: "2 powi (e + 1) \<le> x / p" by simp
    have fl: "is_float f (2 powi (e + 1))" using e1 e2 by (intro is_float_pow2 [OF ok]) simp_all
    have pos: "(0::real) < 2 powi (e + 1)" by simp
    have "2 powi (e + 1) \<le> d" by (rule round_ge_float [OF ok pos le fl rd])
    moreover have "of_int Ds * u \<le> of_int m * u" using Dsm u by (intro mult_right_mono) simp_all
    ultimately show False using dD nb(2) by linarith
  qed
  have err: "x / p - u / 2 \<le> d"
    unfolding u_def by (rule round_err_lower [OF ok e1 xp0 xplt rd])
  show ?thesis
  proof (cases "even m")
    case True
    have "2 * X < 2 * m * m + 3 * m"
    proof (rule ccontr)
      assume "\<not> 2 * X < 2 * m * m + 3 * m"
      then have bad: "2 * m * m + 3 * m \<le> 2 * X" by simp
      have "n * (2 * Ds + 1) < 2 * X"
      proof (cases "2 \<le> Dl")
        case True
        from even_far [OF bad True] show ?thesis unfolding Ds_def Dl(2) .
      next
        case False
        with Dl(1) have "Dl = 1" by simp
        then have "n = m + 1" "Ds = m" using Dl(2) unfolding Ds_def by simp_all
        with even_near [OF bad True mpos m2 dv P] show ?thesis by simp
      qed
      from conv [OF this] have "of_int (2 * Ds + 1) * u / 2 < x / p" .
      moreover have "of_int (2 * Ds + 1) * u / 2 = of_int Ds * u + u / 2"
        by (simp add: algebra_simps)
      ultimately have "of_int Ds * u + u / 2 < x / p" by (simp only:)
      then show False using err dD by linarith
    qed
    with True show ?thesis by simp
  next
    case False
    have "2 * X < 2 * m * m + m"
    proof (rule ccontr)
      assume "\<not> 2 * X < 2 * m * m + m"
      then have bad: "2 * m * m + m \<le> 2 * X" by simp
      have dlt: "d < of_int Ds * u" unfolding Dsu using L1s [OF False] by simp
      have "n * (2 * Ds - 1) < 2 * X"
        using odd_any [OF bad Dl(1)] unfolding Ds_def Dl(2) .
      from conv [OF this] have "of_int (2 * Ds - 1) * u / 2 < x / p" .
      moreover have "of_int (2 * Ds - 1) * u / 2 = of_int (Ds - 1) * u + u / 2"
        by (simp add: field_simps)
      ultimately have "of_int (Ds - 1) * u + u / 2 < x / p" by (simp only:)
      then have dgt: "of_int (Ds - 1) * u < d" using err by linarith
      show False
      proof (cases "2 ^ (precision f - 1) \<le> Ds - 1")
        case True
        have "of_int (2 ^ (precision f - 1)) * u \<le> of_int (Ds - 1) * u"
          using True u by (intro mult_right_mono) (simp_all only: of_int_le_iff less_imp_le)
        moreover have "of_int (2 ^ (precision f - 1)) * u = 2 powi e"
          using quantum_bot [OF P, of e] unfolding u_def by (simp add: mult.commute)
        ultimately have "2 powi e \<le> d" using dgt by linarith
        moreover have "is_float f d" using round_is_float [OF ok xp0 rd] by simp
        ultimately obtain K where K: "d = of_int K * u"
          using float_on_grid [OF _ _ P] unfolding u_def by blast
        have "Ds - 1 < K" using dgt u unfolding K by (intro of_int_mult_less_cancel)
        then have "Ds \<le> K" by simp
        then have "of_int Ds * u \<le> of_int K * u"
          using u by (intro mult_right_mono) (simp_all only: of_int_le_iff less_imp_le)
        then show False using dlt unfolding K by simp
      next
        case nC: False
        show False
        proof (cases "Ds \<le> 0")
          case True
          then have "of_int Ds * u \<le> 0" using u by (simp add: mult_le_0_iff)
          then show False using dlt d0 by linarith
        next
          case False
          then have Dp: "0 \<le> Ds" "0 < Ds" by simp_all
          have "(2::int) ^ (precision f - 1) < 2 ^ precision f"
            using P by (intro power_strict_increasing) simp_all
          then have Dtop: "Ds < 2 ^ precision f" using nC by linarith
          have e3: "e \<le> emax f" using e2 by simp
          have fl: "is_float f (of_int Ds * u)"
            unfolding u_def by (rule is_float_grid [OF e1 e3 Dp(1) Dtop])
          have vpos: "0 < of_int Ds * u" using Dp(2) u by simp
          have "x / p < of_int Ds * u"
          proof (rule ccontr)
            assume "\<not> x / p < of_int Ds * u"
            then have le: "of_int Ds * u \<le> x / p" by simp
            have "of_int Ds * u \<le> d" by (rule round_ge_float [OF ok vpos le fl rd])
            then show False using dlt by simp
          qed
          from conv2 [OF this] have lt: "X < (m + Dl) * (m + 1 - Dl)"
            unfolding Ds_def Dl(2) .
          from dv obtain k where k: "X = 2 ^ (precision f - 1) * k" by (auto simp add: dvd_def)
          have g: "m - 2 ^ (precision f - 1) + 1 \<le> Dl" using nC unfolding Ds_def by simp
          have Mp: "(0::int) < 2 ^ (precision f - 1)" by simp
          show False by (rule boundary_gap [OF mm k m1 g Mp lt])
        qed
      qed
    qed
    with False show ?thesis by simp
  qed
qed

lemma endgame_fixed:
  assumes ok: "format_ok f"
    and e1: "emin f \<le> e" and e2: "e + 2 \<le> emax f"
    and q: "q = of_int m * quantum f e"
    and m1: "2 ^ (precision f - 1) \<le> m" and m2: "m < 2 ^ precision f"
    and x: "x = of_int X * (quantum f e * quantum f e)" and mm: "m * m < X"
    and bound: "if even m then 2 * X < 2 * m * m + 3 * m else 2 * X < 2 * m * m + m"
  shows "newton f x q = Fin q"
proof -
  note rg = format_ok_range [OF ok]
  have P: "0 < precision f" using rg by simp
  define u where "u = quantum f e"
  have u: "0 < u" unfolding u_def by (rule quantum_pos)
  have uu: "0 < u * u" using u by simp
  have qu: "q = of_int m * u" using q unfolding u_def .
  have xu: "x = of_int X * (u * u)" using x unfolding u_def .
  have q2: "quantum f (e + 1) = 2 * u" unfolding u_def by (rule quantum_Suc)
  have "(0::int) < 2 ^ (precision f - 1)" by simp
  then have mpos: "0 < m" using m1 by linarith
  have mr: "(0::real) < of_int m" using mpos by simp
  have q0: "0 < q" unfolding qu using mpos u by simp
  have e3: "e \<le> emax f" "e < emax f" "emin f \<le> e + 1" "e + 1 < emax f" "e + 1 \<le> emax f"
    using e1 e2 by simp_all
  have m0: "0 \<le> m" using mpos by simp
  have fq: "is_float f q" unfolding q by (rule is_float_grid [OF e1 e3(1) m0 m2])
  have "of_int (m * m) * (u * u) < of_int X * (u * u)"
    using mm uu by (simp only: mult_less_cancel_right_pos of_int_less_iff)
  then have qq: "q * q < x" unfolding qu xu by (simp add: mult_ac)
  then have "q < x / q" using q0 by (simp only: pos_less_divide_eq)
  then have qle: "q \<le> x / q" by simp
  have xq0: "0 < x / q" using qle q0 by linarith
  have xq: "x / q = of_int X * u / of_int m"
    unfolding xu qu using u mr by simp
  have conv: "x / q < of_int c * u / 2" if "2 * X < m * c" for c
  proof -
    have "(of_int (2 * X) :: real) < of_int (m * c)" using that by (simp only: of_int_less_iff)
    then have "2 * (of_int X :: real) < of_int c * of_int m" by (simp add: mult.commute)
    then have "2 * (of_int X :: real) / of_int m < of_int c"
      using mr by (simp only: pos_divide_less_eq)
    moreover have "0 < u / 2" using u by simp
    ultimately have "2 * (of_int X :: real) / of_int m * (u / 2) < of_int c * (u / 2)"
      by (simp only: mult_less_cancel_right_pos)
    then show ?thesis unfolding xq by simp
  qed
  have "\<exists>d. round_fin f (x / q) = Fin d \<and> d \<le> q + u \<and> (odd m \<longrightarrow> d \<le> q)"
  proof (cases "even m")
    case True
    with bound have "2 * X < 2 * m * m + 3 * m" by simp
    moreover have "2 * m * m + 3 * m = m * (2 * (m + 1) + 1)" by (simp add: algebra_simps)
    ultimately have "2 * X < m * (2 * (m + 1) + 1)" by (simp only:)
    from conv [OF this] have "x / q < of_int (2 * (m + 1) + 1) * u / 2" .
    moreover have "of_int (2 * (m + 1) + 1) * u / 2 = of_int (m + 1) * u + u / 2"
      by (simp add: field_simps)
    ultimately have lt: "x / q < of_int (m + 1) * quantum f e + quantum f e / 2"
      unfolding u_def by (simp only:)
    have "even ((2::int) ^ precision f)" using P by simp
    then have "m + 1 \<noteq> 2 ^ precision f" using True by (metis even_plus_one_iff)
    then have t: "m + 1 < 2 ^ precision f" using m2 by linarith
    have b: "2 ^ (precision f - 1) \<le> m + 1" using m1 by linarith
    obtain r where r: "round_fin f (x / q) = Fin r" "r \<le> of_int (m + 1) * quantum f e"
      using round_below_half [OF ok e1 e3(2) b t xq0 lt] by blast
    have "of_int (m + 1) * quantum f e = q + u" unfolding qu u_def by (simp add: algebra_simps)
    with r True show ?thesis by auto
  next
    case False
    with bound have "2 * X < 2 * m * m + m" by simp
    moreover have "2 * m * m + m = m * (2 * m + 1)" by (simp add: algebra_simps)
    ultimately have "2 * X < m * (2 * m + 1)" by (simp only:)
    from conv [OF this] have "x / q < of_int (2 * m + 1) * u / 2" .
    moreover have "of_int (2 * m + 1) * u / 2 = of_int m * u + u / 2"
      by (simp add: field_simps)
    ultimately have lt: "x / q < of_int m * quantum f e + quantum f e / 2"
      unfolding u_def by (simp only:)
    obtain r where r: "round_fin f (x / q) = Fin r" "r \<le> of_int m * quantum f e"
      using round_below_half [OF ok e1 e3(2) m1 m2 xq0 lt] by blast
    have "r \<le> q" using r(2) unfolding q .
    moreover have "r \<le> q + u" using r(2) u unfolding q u_def by linarith
    ultimately show ?thesis using r(1) by auto
  qed
  then obtain d where rd: "round_fin f (x / q) = Fin d" and dle: "d \<le> q + u"
    and dodd: "odd m \<Longrightarrow> d \<le> q" by blast
  have dge: "q \<le> d" by (rule round_ge_float [OF ok q0 qle fq rd])
  have q2u: "2 * q = of_int m * quantum f (e + 1)" unfolding q2 qu by simp
  have f2q: "is_float f (2 * q)"
    unfolding q2u by (rule is_float_grid [OF e3(3) e3(5) m0 m2])
  have pos2q: "0 < 2 * q" using q0 by simp
  have sum: "round_fin f (q + d) = Fin (2 * q)"
  proof (cases "q + d = 2 * q + u")
    case True
    then have "\<not> d \<le> q" using u by linarith
    then have ev: "even m" using dodd by blast
    have "2 * q + u = of_int m * quantum f (e + 1) + quantum f (e + 1) / 2"
      unfolding q2 qu by simp
    with True have eq: "q + d = of_int m * quantum f (e + 1) + quantum f (e + 1) / 2"
      by (simp only:)
    have "round_fin f (of_int m * quantum f (e + 1) + quantum f (e + 1) / 2)
        = Fin (of_int (if even m then m else m + 1) * quantum f (e + 1))"
      by (rule round_tie [OF ok e3(3) e3(4) m1 m2])
    then show ?thesis unfolding eq [symmetric] q2u using ev by simp
  next
    case False
    then have "q + d < 2 * q + u" using dle by linarith
    then have lt: "q + d < of_int m * quantum f (e + 1) + quantum f (e + 1) / 2"
      unfolding q2 qu by simp
    have sp: "0 < q + d" using q0 dge by linarith
    obtain r where r: "round_fin f (q + d) = Fin r" "r \<le> of_int m * quantum f (e + 1)"
      using round_below_half [OF ok e3(3) e3(4) m1 m2 sp lt] by blast
    have le: "2 * q \<le> q + d" using dge by simp
    have "2 * q \<le> r" by (rule round_ge_float [OF ok pos2q le f2q r(1)])
    with r(2) have "r = 2 * q" unfolding q2u by simp
    with r(1) show ?thesis by simp
  qed
  have "round_fin f q = Fin q" by (rule float_round_id [OF ok fq q0])
  then have half: "round_fin f (2 * q / 2) = Fin q" by simp
  have qn: "q \<noteq> 0" using q0 by simp
  show ?thesis by (rule newton_eval [OF qn rd sum half])
qed

lemma endgame:
  assumes ok: "format_ok f" and fx: "is_float f x" and fp: "is_float f p" and p0: "0 < p"
    and hi: "x \<le> p * p" and fq: "is_float f q" and ql: "2 powi (emin f) \<le> q"
    and low: "q * q < x"
    and rd: "round_fin f (x / p) = Fin d" and ra: "round_fin f (p + d) = Fin (2 * q)"
    and d0: "0 \<le> d"
  shows "newton f x q = Fin q"
proof -
  obtain e m X where g: "emin f \<le> e" "e + 2 \<le> emax f" "q = of_int m * quantum f e"
    "2 ^ (precision f - 1) \<le> m" "m < 2 ^ precision f"
    "x = of_int X * (quantum f e * quantum f e)" "2 ^ (precision f - 1) dvd X" "m * m < X"
    by (rule grid_setup [OF ok fx fq ql low])
  have b: "if even m then 2 * X < 2 * m * m + 3 * m else 2 * X < 2 * m * m + m"
    by (rule endgame_bound [OF ok g(1) g(2) g(3) g(4) g(5) g(6) g(7) g(8) fp p0 hi rd ra d0])
  show ?thesis by (rule endgame_fixed [OF ok g(1) g(2) g(3) g(4) g(5) g(6) g(8) b])
qed

section \<open>Termination of the square root\<close>

lemma grid_index:
  fixes u :: real
  assumes "0 < u"
  shows "nat \<lfloor>of_int K * u / u\<rfloor> = nat K"
  using assms by simp

lemma sqrt_stop:
  assumes "newton f x q = Fin q"
  shows "audio_utils_sqrt_unchecked (round_fp f) (Fin x) (Fin q) = Some (Fin q)"
  using sqrt_unfold [of f x q] assms by (simp add: fp_eq_def)

lemma sqrt_step:
  assumes "newton f x p = Fin q" "q \<noteq> p"
  shows "audio_utils_sqrt_unchecked (round_fp f) (Fin x) (Fin p)
           = audio_utils_sqrt_unchecked (round_fp f) (Fin x) (Fin q)"
  using sqrt_unfold [of f x p] assms by (simp add: fp_eq_def)

lemma high_terminates:
  assumes ok: "format_ok f" and fx: "is_float f x" and x0: "0 < x"
  shows "is_float f p \<Longrightarrow> 0 < p \<Longrightarrow> x \<le> p * p \<Longrightarrow> 2 * p < 2 powi (emax f + 1) \<Longrightarrow>
    \<exists>y. audio_utils_sqrt_unchecked (round_fp f) (Fin x) (Fin p) = Some (Fin y)
      \<and> 0 < y \<and> newton f x y = Fin y"
proof (induction p rule: measure_induct_rule [where f = "\<lambda>p. nat \<lfloor>p / quantum f (emin f)\<rfloor>"])
  case (less p)
  note rg = format_ok_range [OF ok]
  have P: "0 < precision f" using rg by simp
  define u where "u = quantum f (emin f)"
  have u: "0 < u" unfolding u_def by (rule quantum_pos)
  obtain d q where s: "round_fin f (x / p) = Fin d" "round_fin f (p + d) = Fin (2 * q)"
    "newton f x p = Fin q" "0 \<le> d" "d \<le> p" "p \<le> 2 * q" "q \<le> p" "is_float f q" "0 < q"
    by (rule high_step [OF ok fx x0 less.prems])
  have hl: "2 powi (emin f + 1) \<le> p"
    by (rule high_lower [OF ok fx x0 less.prems(2) less.prems(3)])
  have "2 * (2::real) powi (emin f) = 2 powi (emin f + 1)" by (rule pow2_double)
  then have ql: "2 powi (emin f) \<le> q" using hl s(6) by linarith
  have pl: "2 powi (emin f) \<le> p" using ql s(7) by linarith
  show ?case
  proof (cases "q = p")
    case True
    then have "newton f x p = Fin p" using s(3) by simp
    from sqrt_stop [OF this] this less.prems(2) show ?thesis by blast
  next
    case False
    then have qp: "q < p" using s(7) by simp
    note st = sqrt_step [OF s(3) False]
    show ?thesis
    proof (cases "x \<le> q * q")
      case True
      obtain Kp where Kp: "p = of_int Kp * u"
        using float_on_grid [OF less.prems(1) pl P] unfolding u_def by blast
      obtain Kq where Kq: "q = of_int Kq * u"
        using float_on_grid [OF s(8) ql P] unfolding u_def by blast
      have "Kq < Kp" using qp u unfolding Kp Kq by (intro of_int_mult_less_cancel)
      moreover have "of_int 0 * u < of_int Kq * u" using s(9) unfolding Kq by simp
      then have "0 < Kq" using u by (intro of_int_mult_less_cancel)
      ultimately have "nat Kq < nat Kp" by simp
      then have m: "nat \<lfloor>q / quantum f (emin f)\<rfloor> < nat \<lfloor>p / quantum f (emin f)\<rfloor>"
        unfolding u_def [symmetric] Kp Kq by (simp only: grid_index [OF u])
      have tp: "2 * q < 2 powi (emax f + 1)" using qp less.prems(4) by linarith
      from less.IH [OF m s(8) s(9) True tp] show ?thesis unfolding st .
    next
      case False
      then have low: "q * q < x" by simp
      have "newton f x q = Fin q"
        by (rule endgame [OF ok fx less.prems(1) less.prems(2) less.prems(3) s(8) ql low s(1) s(2) s(4)])
      from sqrt_stop [OF this] this s(9) show ?thesis unfolding st by blast
    qed
  qed
qed

lemma low_terminates:
  assumes ok: "format_ok f" and fx: "is_float f x" and xtop: "x < 2 powi (emax f)"
  shows "is_float f p \<Longrightarrow> 1 \<le> p \<Longrightarrow> p * p < x \<Longrightarrow>
    \<exists>y. audio_utils_sqrt_unchecked (round_fp f) (Fin x) (Fin p) = Some (Fin y)
      \<and> 0 < y \<and> newton f x y = Fin y"
proof (induction p rule: measure_induct_rule [where f = "\<lambda>p. nat \<lfloor>(x - p) / quantum f (emin f)\<rfloor>"])
  case (less p)
  note rg = format_ok_range [OF ok]
  have P: "0 < precision f" using rg by simp
  define u where "u = quantum f (emin f)"
  have u: "0 < u" unfolding u_def by (rule quantum_pos)
  have p0: "0 < p" using less.prems(2) by simp
  have "p * 1 \<le> p * p" using less.prems(2) p0 by (intro mult_left_mono) simp_all
  then have px: "p < x" using less.prems(3) by simp
  have x0: "0 < x" using px p0 by simp
  obtain q where s: "newton f x p = Fin q" "p \<le> q" "q \<le> x" "is_float f q"
    by (rule low_step [OF ok fx less.prems xtop])
  have q0: "0 < q" using s(2) p0 by simp
  have "(2::real) powi (emin f) \<le> 2 powi 0" using rg by (intro power_int_increasing) simp_all
  then have one: "2 powi (emin f) \<le> (1::real)" by simp
  show ?case
  proof (cases "q = p")
    case True
    then have "newton f x p = Fin p" using s(1) by simp
    from sqrt_stop [OF this] this p0 show ?thesis by blast
  next
    case False
    then have pq: "p < q" using s(2) by simp
    note st = sqrt_step [OF s(1) False]
    show ?thesis
    proof (cases "q * q < x")
      case True
      have pl: "2 powi (emin f) \<le> p" using one less.prems(2) by linarith
      have ql: "2 powi (emin f) \<le> q" using pl s(2) by linarith
      have xl: "2 powi (emin f) \<le> x" using ql s(3) by linarith
      obtain Kp where Kp: "p = of_int Kp * u"
        using float_on_grid [OF less.prems(1) pl P] unfolding u_def by blast
      obtain Kq where Kq: "q = of_int Kq * u"
        using float_on_grid [OF s(4) ql P] unfolding u_def by blast
      obtain Kx where Kx: "x = of_int Kx * u"
        using float_on_grid [OF fx xl P] unfolding u_def by blast
      have a: "Kp < Kq" using pq u unfolding Kp Kq by (intro of_int_mult_less_cancel)
      have b: "Kq \<le> Kx" using s(3) u unfolding Kx Kq by (intro of_int_mult_le_cancel)
      have "nat (Kx - Kq) < nat (Kx - Kp)" using a b by simp
      moreover have "x - q = of_int (Kx - Kq) * u" unfolding Kx Kq by (simp add: algebra_simps)
      moreover have "x - p = of_int (Kx - Kp) * u" unfolding Kx Kp by (simp add: algebra_simps)
      ultimately have m: "nat \<lfloor>(x - q) / quantum f (emin f)\<rfloor> < nat \<lfloor>(x - p) / quantum f (emin f)\<rfloor>"
        unfolding u_def [symmetric] by (simp only: grid_index [OF u])
      have q1: "1 \<le> q" using less.prems(2) s(2) by linarith
      from less.IH [OF m s(4) q1 True] show ?thesis unfolding st .
    next
      case False
      then have hi: "x \<le> q * q" by simp
      have "(2::real) powi (emax f + 1) = 2 * 2 powi (emax f)" by (rule pow2_double [symmetric])
      then have tp: "2 * q < 2 powi (emax f + 1)" using s(3) xtop by linarith
      from high_terminates [OF ok fx x0 s(4) q0 hi tp] show ?thesis unfolding st .
    qed
  qed
qed

lemma top_first_step:
  assumes ok: "format_ok f" and fx: "is_float f x" and top: "2 powi (emax f) \<le> x"
  shows "newton f x 1 = Fin (x / 2)"
proof -
  note rg = format_ok_range [OF ok]
  have P: "0 < precision f" using rg by simp
  define u where "u = quantum f (emax f)"
  have u: "0 < u" unfolding u_def by (rule quantum_pos)
  have "(0::real) < 2 powi (emax f)" by simp
  then have x0: "0 < x" using top by linarith
  have rd: "round_fin f (x / 1) = Fin x" using float_round_id [OF ok fx x0] by simp
  obtain K where K: "x = of_int K * u"
    using float_on_grid [OF fx top P] unfolding u_def by blast
  have xt: "x < 2 powi (emax f + 1)" using fx by (rule float_below_top)
  have "(2::real) powi 2 \<le> 2 powi (emax f - int (precision f) + 1)"
    using ok by (intro power_int_increasing) (simp_all add: format_ok_def)
  then have u4: "4 \<le> u" unfolding u_def quantum_def by simp
  have tp: "of_int (2 ^ precision f) * u = 2 powi (emax f + 1)"
    using quantum_top [of f "emax f"] unfolding u_def by (simp add: mult.commute)
  have "of_int K * u < of_int (2 ^ precision f) * u" using xt unfolding K tp .
  then have "K < 2 ^ precision f" using u by (intro of_int_mult_less_cancel)
  then have "K + 1 \<le> 2 ^ precision f" by simp
  then have "of_int (K + 1) * u \<le> of_int (2 ^ precision f) * u"
    using u by (intro mult_right_mono) (simp_all only: of_int_le_iff less_imp_le)
  moreover have "of_int (K + 1) * u = x + u" unfolding K by (simp add: algebra_simps)
  ultimately have "x + u \<le> 2 powi (emax f + 1)" unfolding tp by simp
  then have lt: "1 + x < 2 powi (emax f + 1)" using u4 by linarith
  have ge: "2 powi (emax f) \<le> 1 + x" using top by simp
  have em: "emin f \<le> emax f" using rg by simp
  have bn: "binade f (1 + x) = emax f"
    by (rule binade_eqI [OF rg [THEN conjunct1] rg [THEN conjunct2, THEN conjunct1] em order_refl ge lt])
  have dv: "(1 + x) / u = of_int K + 1 / u" unfolding K using u by (simp add: field_simps)
  have "1 / u \<le> 1 / 4" using u4 by (intro divide_left_mono) simp_all
  then have small: "0 < 1 / u" "1 / u < 1 / 2" using u by simp_all
  have "K \<le> round_half_even ((1 + x) / u)" unfolding dv using small(1) by (intro rhe_ge) simp
  moreover have "round_half_even ((1 + x) / u) \<le> K"
    unfolding dv using small(2) by (intro rhe_below_half) simp
  ultimately have rh: "round_half_even ((1 + x) / u) = K" by simp
  have s0: "0 < 1 + x" using x0 by simp
  have ra: "round_fin f (1 + x) = Fin x"
    using round_fin_pos [OF s0, of f] xt unfolding bn u_def [symmetric] rh K [symmetric] by simp
  have "emin f + 1 \<le> emax f" using ok by (simp add: format_ok_def)
  then have "(2::real) powi (emin f + 1) \<le> 2 powi (emax f)"
    by (intro power_int_increasing) simp_all
  then have "2 powi (emin f + 1) \<le> x" using top by linarith
  then have half: "round_fin f (x / 2) = Fin (x / 2)" by (rule halve_exact(1) [OF ok fx])
  have ne: "(1::real) \<noteq> 0" by simp
  show ?thesis by (rule newton_eval [OF ne rd ra half])
qed

lemma unchecked_terminates:
  assumes ok: "format_ok f" and fx: "is_float f x" and x0: "0 < x"
  shows "\<exists>y. audio_utils_sqrt_unchecked (round_fp f) (Fin x) (Fin 1) = Some (Fin y)
      \<and> 0 < y \<and> newton f x y = Fin y"
proof -
  note rg = format_ok_range [OF ok]
  have f1: "is_float f 1"
    using is_float_pow2 [OF ok rg [THEN conjunct1] rg [THEN conjunct2, THEN conjunct1]] by simp
  have e5: "5 \<le> emax f" using ok by (simp add: format_ok_def)
  consider "x \<le> 1" | "1 < x" "x < 2 powi (emax f)" | "2 powi (emax f) \<le> x" by linarith
  then show ?thesis
  proof cases
    case 1
    have hi: "x \<le> 1 * (1::real)" using 1 by simp
    have "(2::real) powi 1 < 2 powi (emax f + 1)"
      using e5 by (intro power_int_strict_increasing) simp_all
    then have tp: "2 * (1::real) < 2 powi (emax f + 1)" by simp
    show ?thesis by (rule high_terminates [OF ok fx x0 f1 zero_less_one hi tp])
  next
    case 2
    have lo: "1 * (1::real) < x" using 2(1) by simp
    show ?thesis by (rule low_terminates [OF ok fx 2(2) f1 order_refl lo])
  next
    case 3
    have st: "newton f x 1 = Fin (x / 2)" by (rule top_first_step [OF ok fx 3])
    have "(2::real) powi 5 \<le> 2 powi (emax f)" using e5 by (intro power_int_increasing) simp_all
    then have x32: "32 \<le> x" using 3 by simp
    then have ne: "x / 2 \<noteq> 1" by simp
    have "emin f + 1 \<le> emax f" using ok by (simp add: format_ok_def)
    then have "(2::real) powi (emin f + 1) \<le> 2 powi (emax f)"
      by (intro power_int_increasing) simp_all
    then have "2 powi (emin f + 1) \<le> x" using 3 by linarith
    then have fh: "is_float f (x / 2)" by (rule halve_exact(2) [OF ok fx])
    have h0: "0 < x / 2" using x0 by simp
    have "x * 4 \<le> x * x" using x32 by (intro mult_left_mono) simp_all
    then have hi: "x \<le> x / 2 * (x / 2)" by simp
    have "x < 2 powi (emax f + 1)" using fx by (rule float_below_top)
    then have tp: "2 * (x / 2) < 2 powi (emax f + 1)" by simp
    from high_terminates [OF ok fx x0 fh h0 hi tp] show ?thesis
      unfolding sqrt_step [OF st ne] .
  qed
qed

lemma format_ok_binary64: "format_ok binary64"
  by (simp add: format_ok_def binary64_def)

lemma format_ok_binary32: "format_ok binary32"
  by (simp add: format_ok_def binary32_def)

text \<open>
  C9. Under rounding to nearest, ties to even, in a binary format with at least two
  significand bits \<open>p\<close>, \<open>emin \<le> - p - 1\<close> and \<open>2 * p + 1 \<le> emax\<close> (single
  and double precision among them), \<open>audio_utils_sqrt(x)\<close> returns for every finite,
  strictly positive number \<open>x\<close> of the format: the iteration
  \<open>next = 0.5 * (prev + x / prev)\<close> started from \<open>prev = 1\<close> reaches after finitely
  many steps a finite positive value \<open>y\<close> whose successor is \<open>y\<close> itself, and
  that value is returned.
\<close>

theorem sqrt_terminates:
  assumes "format_ok f" "0 < x" "round_fin f x = Fin x"
  shows "\<exists>y. audio_utils_sqrt (round_fp f) (Fin x) = Some (Fin y) \<and> 0 < y
    \<and> round_fp f (Fin (1 / 2) * round_fp f (Fin y + round_fp f (Fin x / Fin y))) = Fin y"
proof -
  have fx: "is_float f x" using round_is_float [OF assms] by simp
  have "audio_utils_sqrt (round_fp f) (Fin x)
      = audio_utils_sqrt_unchecked (round_fp f) (Fin x) (Fin 1)"
    using assms(2) by (simp add: audio_utils_sqrt_def audio_utils_isnan_def fp_eq_def fin_arith)
  then show ?thesis
    using unchecked_terminates [OF assms(1) fx assms(2)] unfolding newton_def by simp
qed

theorem sqrt_terminates_witness:
  "format_ok binary64 \<and> (0::real) < 10 \<and> round_fin binary64 10 = Fin 10
   \<and> (\<exists>y. audio_utils_sqrt (round_fp binary64) (Fin 10) = Some (Fin y) \<and> 0 < y
    \<and> round_fp binary64 (Fin (1 / 2) * round_fp binary64 (Fin y + round_fp binary64 (Fin 10 / Fin y))) = Fin y)
   \<and> format_ok binary32 \<and> (0::real) < 3 / 4 \<and> round_fin binary32 (3 / 4) = Fin (3 / 4)
   \<and> (\<exists>y. audio_utils_sqrt (round_fp binary32) (Fin (3 / 4)) = Some (Fin y) \<and> 0 < y
    \<and> round_fp binary32 (Fin (1 / 2) * round_fp binary32 (Fin y + round_fp binary32 (Fin (3 / 4) / Fin y))) = Fin y)"
proof -
  have a: "format_ok binary64" by (simp add: format_ok_def binary64_def)
  have b: "(0::real) < 10" by simp
  have c: "round_fin binary64 10 = Fin 10"
    by (simp add: round_fin_def binade_def binary64_def binade_up.simps binade_down.simps
        round_half_even_def Let_def)
  have a': "format_ok binary32" by (simp add: format_ok_def binary32_def)
  have b': "(0::real) < 3 / 4" by simp
  have c': "round_fin binary32 (3 / 4) = Fin (3 / 4)"
    by (simp add: round_fin_def binade_def binary32_def binade_up.simps binade_down.simps
        round_half_even_def Let_def)
  from sqrt_terminates [OF a b c] sqrt_terminates [OF a' b' c'] a b c a' b' c'
  show ?thesis by blast
qed

end
